theory Spec2Isabelle
  imports Complex_Main "HOL-Library.Multiset"
begin

section \<open>The model tree (smodel.ts)\<close>

text \<open>
  Model elements are JavaScript objects that are mutated in place and compared by
  reference (\<^verbatim>\<open>indexOf\<close>), so they live in a store: a reference is an address, and the
  store gives the object at every address. Index objects (\<^verbatim>\<open>SModelIndex\<close>) live in a
  second store, since a root is constructed with an index that may be shared.
\<close>

type_synonym ref = nat
type_synonym iref = nat

text \<open>
  The source throws plain \<^verbatim>\<open>Error\<close> objects that differ in their message only; the
  constructors name the four messages as the specification does. \<open>TypeError\<close> is what the
  JavaScript runtime raises when a method of \<^verbatim>\<open>undefined\<close> is called.
\<close>

datatype error =
    DuplicateIdentifier   \<comment> \<open>"Duplicate ID in model: ..."\<close>
  | ChildNotFound         \<comment> \<open>"No such child ..."\<close>
  | IndexOutOfBounds      \<comment> \<open>"Child index ... out of bounds ..."\<close>
  | DetachedElement       \<comment> \<open>"Element has no root"\<close>
  | TypeError

text \<open>The runtime class of an element, as \<^verbatim>\<open>instanceof\<close> sees it; a root carries its index.\<close>

datatype kind =
    SModelElement
  | SParentElement
  | SChildElement
  | SModelRoot iref

record element =
  kind :: kind
  type_e :: string
  id_e :: string                    \<comment> \<open>the empty string is the unset id: \<^verbatim>\<open>!element.id\<close>\<close>
  children :: "ref list option"     \<comment> \<open>\<open>None\<close>: no \<^verbatim>\<open>children\<close> array\<close>
  parent :: "ref option"            \<comment> \<open>\<open>None\<close>: \<^verbatim>\<open>undefined\<close>\<close>

text \<open>
  \<open>random\<close> is the sequence of the values \<^verbatim>\<open>Math.random()\<close> returns, and \<open>drawn\<close> the
  number of them consumed so far.
\<close>

record state =
  elems :: "ref \<Rightarrow> element"
  id2element :: "iref \<Rightarrow> string \<Rightarrow> ref option"
  random :: "nat \<Rightarrow> real"
  drawn :: nat

text \<open>
  A call returns a value, throws (the state as mutated up to the throw stays), or does
  not return: \<open>Hangs\<close> is the outcome of a loop or recursion that outlives its fuel.
\<close>

datatype 'a outcome =
    Returns (result: 'a) (final: state)
  | Throws (err: error) (final: state)
  | Hangs

subsection \<open>SModelElement.root and SModelElement.index\<close>

fun root_loop :: "nat \<Rightarrow> state \<Rightarrow> ref option \<Rightarrow> ref outcome" where
  "root_loop n s None = Throws DetachedElement s"
| "root_loop 0 s (Some current) = Hangs"
| "root_loop (Suc n) s (Some current) =
     (case kind (elems s current) of
        SModelRoot i \<Rightarrow> Returns current s
      | SChildElement \<Rightarrow> root_loop n s (parent (elems s current))
      | _ \<Rightarrow> root_loop n s None)"

definition root_e :: "nat \<Rightarrow> ref \<Rightarrow> state \<Rightarrow> ref outcome" where
  "root_e fuel this s = root_loop fuel s (Some this)"

text \<open>
  \<^verbatim>\<open>element.index\<close>: the getter of \<^verbatim>\<open>SModelElement\<close>, which a root overrides with a data
  property holding its index.
\<close>

definition index_e :: "nat \<Rightarrow> ref \<Rightarrow> state \<Rightarrow> iref outcome" where
  "index_e fuel this s =
     (case kind (elems s this) of
        SModelRoot i \<Rightarrow> Returns i s
      | _ \<Rightarrow>
          (case root_e fuel this s of
             Returns r s' \<Rightarrow>
               (case kind (elems s' r) of
                  SModelRoot i \<Rightarrow> Returns i s'
                | _ \<Rightarrow> Throws TypeError s')
           | Throws e s' \<Rightarrow> Throws e s'
           | Hangs \<Rightarrow> Hangs))"

subsection \<open>createRandomId\<close>

definition ID_CHARS :: string where
  "ID_CHARS = ''0123456789abcdefghijklmnopqrstuvwxyz''"

text \<open>\<^verbatim>\<open>String.prototype.charAt\<close>: the empty string outside the string.\<close>

definition charAt :: "string \<Rightarrow> int \<Rightarrow> string" where
  "charAt str k = (if 0 \<le> k \<and> k < int (length str) then [str ! nat k] else [])"

text \<open>\<^verbatim>\<open>Math.floor(Math.random() * ID_CHARS.length)\<close>, consuming one random value.\<close>

definition random_index :: "state \<Rightarrow> int \<times> state" where
  "random_index s =
     (\<lfloor>random s (drawn s) * real (length ID_CHARS)\<rfloor>, s\<lparr>drawn := Suc (drawn s)\<rparr>)"

text \<open>The \<^verbatim>\<open>for\<close> loop of \<^verbatim>\<open>createRandomId\<close>, by the number of rounds left to run.\<close>

fun createRandomId_loop :: "nat \<Rightarrow> string \<Rightarrow> state \<Rightarrow> string \<times> state" where
  "createRandomId_loop 0 ident s = (ident, s)"
| "createRandomId_loop (Suc n) ident s =
     (case random_index s of
        (k, s') \<Rightarrow> createRandomId_loop n (ident @ charAt ID_CHARS k) s')"

definition createRandomId :: "nat \<Rightarrow> state \<Rightarrow> string \<times> state" where
  "createRandomId len s = createRandomId_loop len [] s"

subsection \<open>SModelIndex\<close>

definition set_id :: "ref \<Rightarrow> string \<Rightarrow> state \<Rightarrow> state" where
  "set_id e v s = s\<lparr>elems := (elems s)(e := (elems s e)\<lparr>id_e := v\<rparr>)\<rparr>"

definition contains :: "iref \<Rightarrow> ref \<Rightarrow> state \<Rightarrow> bool" where
  "contains this e s = (id2element s this (id_e (elems s e)) \<noteq> None)"

definition getById :: "iref \<Rightarrow> string \<Rightarrow> state \<Rightarrow> ref option" where
  "getById this i s = id2element s this i"

text \<open>\<^verbatim>\<open>this.id2element.set(element.id, element)\<close>\<close>

definition register :: "iref \<Rightarrow> ref \<Rightarrow> state \<Rightarrow> state" where
  "register this e s =
     s\<lparr>id2element := (id2element s)(this := (id2element s this)(id_e (elems s e) \<mapsto> e))\<rparr>"

text \<open>
  The \<^verbatim>\<open>do ... while (this.contains(element))\<close> loop of \<^verbatim>\<open>add\<close>; the default length of
  \<^verbatim>\<open>createRandomId\<close> is 8.
\<close>

fun fresh_id_loop :: "nat \<Rightarrow> iref \<Rightarrow> ref \<Rightarrow> state \<Rightarrow> unit outcome" where
  "fresh_id_loop 0 this e s = Hangs"
| "fresh_id_loop (Suc n) this e s =
     (case createRandomId 8 s of
        (v, s1) \<Rightarrow>
          (let s2 = set_id e v s1
           in if contains this e s2 then fresh_id_loop n this e s2 else Returns () s2))"

text \<open>
  \<^verbatim>\<open>SModelIndex.add\<close>. The fuel bounds the depth of the recursion and the rounds of the
  retry loop. The \<^verbatim>\<open>for ... of\<close> loop walks the array that \<^verbatim>\<open>element.children\<close> holds when
  the loop starts; \<^verbatim>\<open>add\<close> never writes a \<^verbatim>\<open>children\<close> array.
\<close>

fun index_add :: "nat \<Rightarrow> iref \<Rightarrow> ref \<Rightarrow> state \<Rightarrow> unit outcome"
  and index_add_each :: "nat \<Rightarrow> iref \<Rightarrow> ref list \<Rightarrow> state \<Rightarrow> unit outcome" where
  "index_add 0 this e s = Hangs"
| "index_add (Suc n) this e s =
     (case (if id_e (elems s e) = []
            then fresh_id_loop n this e s
            else if contains this e s then Throws DuplicateIdentifier s
            else Returns () s) of
        Returns u s1 \<Rightarrow>
          (let s2 = register this e s1
           in case children (elems s2 e) of
                None \<Rightarrow> Returns () s2
              | Some cs \<Rightarrow> index_add_each n this cs s2)
      | Throws x s1 \<Rightarrow> Throws x s1
      | Hangs \<Rightarrow> Hangs)"
| "index_add_each n this [] s = Returns () s"
| "index_add_each n this (c # cs) s =
     (case index_add n this c s of
        Returns u s1 \<Rightarrow> index_add_each n this cs s1
      | Throws x s1 \<Rightarrow> Throws x s1
      | Hangs \<Rightarrow> Hangs)"

subsection \<open>SParentElement\<close>

text \<open>\<^verbatim>\<open>children.splice(i, 0, child)\<close> for \<open>0 \<le> i\<close>, and \<^verbatim>\<open>children.splice(i, 1)\<close>.\<close>

definition splice_in :: "nat \<Rightarrow> 'a \<Rightarrow> 'a list \<Rightarrow> 'a list" where
  "splice_in i x xs = take i xs @ x # drop i xs"

definition splice_out :: "nat \<Rightarrow> 'a list \<Rightarrow> 'a list" where
  "splice_out i xs = take i xs @ drop (Suc i) xs"

text \<open>\<^verbatim>\<open>Array.prototype.indexOf\<close>: the first position holding the reference, or -1.\<close>

fun indexOf :: "ref list \<Rightarrow> ref \<Rightarrow> int" where
  "indexOf [] x = - 1"
| "indexOf (y # ys) x =
     (if y = x then 0 else (let i = indexOf ys x in if i < 0 then - 1 else i + 1))"

definition set_children :: "ref \<Rightarrow> ref list \<Rightarrow> state \<Rightarrow> state" where
  "set_children e cs s = s\<lparr>elems := (elems s)(e := (elems s e)\<lparr>children := Some cs\<rparr>)\<rparr>"

definition set_parent :: "ref \<Rightarrow> ref option \<Rightarrow> state \<Rightarrow> state" where
  "set_parent e p s = s\<lparr>elems := (elems s)(e := (elems s e)\<lparr>parent := p\<rparr>)\<rparr>"

text \<open>
  \<^verbatim>\<open>SParentElement.add(child, i?)\<close>: \<open>None\<close> is the omitted position. The array is
  written first, then the parent reference, and only then \<^verbatim>\<open>this.index\<close> is resolved
  and the child registered. \<open>attach\<close> is the last two statements of \<^verbatim>\<open>add\<close>, which both
  branches of its \<^verbatim>\<open>if\<close> run into.
\<close>

definition attach :: "nat \<Rightarrow> ref \<Rightarrow> ref \<Rightarrow> state \<Rightarrow> unit outcome" where
  "attach fuel this child s =
     (let s1 = set_parent child (Some this) s
      in case index_e fuel this s1 of
           Returns i s2 \<Rightarrow> index_add fuel i child s2
         | Throws x s2 \<Rightarrow> Throws x s2
         | Hangs \<Rightarrow> Hangs)"

definition add :: "nat \<Rightarrow> ref \<Rightarrow> ref \<Rightarrow> int option \<Rightarrow> state \<Rightarrow> unit outcome" where
  "add fuel this child i s =
     (case children (elems s this) of
        None \<Rightarrow> Throws TypeError s
      | Some cs \<Rightarrow>
          (case i of
             None \<Rightarrow> attach fuel this child (set_children this (cs @ [child]) s)
           | Some k \<Rightarrow>
               if k < 0 \<or> k > int (length cs) then Throws IndexOutOfBounds s
               else attach fuel this child (set_children this (splice_in (nat k) child cs) s)))"

text \<open>\<^verbatim>\<open>SParentElement.move(child, newIndex)\<close>\<close>

definition move :: "ref \<Rightarrow> ref \<Rightarrow> int \<Rightarrow> state \<Rightarrow> unit outcome" where
  "move this child newIndex s =
     (case children (elems s this) of
        None \<Rightarrow> Throws TypeError s
      | Some cs \<Rightarrow>
          (let i = indexOf cs child
           in if i = - 1 then Throws ChildNotFound s
              else if newIndex < 0 \<or> newIndex > int (length cs) - 1
                   then Throws IndexOutOfBounds s
                   else Returns ()
                          (set_children this
                             (splice_in (nat newIndex) child (splice_out (nat i) cs)) s)))"

section \<open>The update scheduler (viewer-cache.ts)\<close>

text \<open>The three entry points of the delegate, each with the model it is given.\<close>

datatype 'a call = UpdateHidden 'a | Update 'a | UpdatePopup 'a

text \<open>
  Modelled from the spec: the frame notifier (\<^verbatim>\<open>AnimationFrameSyncer\<close>), whose code is
  not among the sources. \<^verbatim>\<open>onEndOfNextFrame(callback)\<close> queues the callback and invokes it
  exactly once, at the end of a frame. Every callback the cache queues is the same
  closure, so the notifier's queue is the number \<open>endTasks\<close> of callbacks in it.

  The other fields are the three slots of \<^verbatim>\<open>ViewerCache\<close> and the calls its delegate has
  received so far, oldest first.
\<close>

record 'a ViewerCache =
  cachedModelRoot :: "'a option"
  cachedHiddenModelRoot :: "'a option"
  cachedPopup :: "'a option"
  endTasks :: nat
  delegated :: "'a call list"

datatype 'a flush = Completed "'a ViewerCache" | Raised "'a ViewerCache"

definition isCacheEmpty :: "'a ViewerCache \<Rightarrow> bool" where
  "isCacheEmpty c =
     (cachedModelRoot c = None \<and> cachedHiddenModelRoot c = None \<and> cachedPopup c = None)"

text \<open>\<^verbatim>\<open>this.syncer.onEndOfNextFrame(...)\<close>: one more callback in the notifier's queue.\<close>

definition scheduleUpdate :: "'a ViewerCache \<Rightarrow> 'a ViewerCache" where
  "scheduleUpdate c = c\<lparr>endTasks := Suc (endTasks c)\<rparr>"

definition updatePopup :: "'a \<Rightarrow> 'a ViewerCache \<Rightarrow> 'a ViewerCache" where
  "updatePopup model c =
     (let empty = isCacheEmpty c; c1 = c\<lparr>cachedPopup := Some model\<rparr>
      in if empty then scheduleUpdate c1 else c1)"

definition update :: "'a \<Rightarrow> 'a ViewerCache \<Rightarrow> 'a ViewerCache" where
  "update model c =
     (let empty = isCacheEmpty c; c1 = c\<lparr>cachedModelRoot := Some model\<rparr>
      in if empty then scheduleUpdate c1 else c1)"

definition updateHidden :: "'a \<Rightarrow> 'a ViewerCache \<Rightarrow> 'a ViewerCache" where
  "updateHidden hiddenModel c =
     (let empty = isCacheEmpty c; c1 = c\<lparr>cachedHiddenModelRoot := Some hiddenModel\<rparr>
      in if empty then scheduleUpdate c1 else c1)"

text \<open>
  One call of the delegate: \<open>raises\<close> tells which calls the delegate answers with an
  exception. The call is recorded either way.
\<close>

definition delegate :: "('a call \<Rightarrow> bool) \<Rightarrow> 'a call \<Rightarrow> 'a ViewerCache \<Rightarrow> 'a flush" where
  "delegate raises x c =
     (let c1 = c\<lparr>delegated := delegated c @ [x]\<rparr>
      in if raises x then Raised c1 else Completed c1)"

text \<open>The three \<^verbatim>\<open>if\<close> blocks of the callback that \<^verbatim>\<open>scheduleUpdate\<close> queues, in their order.\<close>

definition flushHidden :: "('a call \<Rightarrow> bool) \<Rightarrow> 'a ViewerCache \<Rightarrow> 'a flush" where
  "flushHidden raises c =
     (case cachedHiddenModelRoot c of
        None \<Rightarrow> Completed c
      | Some nextHiddenModelRoot \<Rightarrow>
          (case delegate raises (UpdateHidden nextHiddenModelRoot) c of
             Completed c1 \<Rightarrow> Completed (c1\<lparr>cachedHiddenModelRoot := None\<rparr>)
           | Raised c1 \<Rightarrow> Raised c1))"

definition flushModel :: "('a call \<Rightarrow> bool) \<Rightarrow> 'a ViewerCache \<Rightarrow> 'a flush" where
  "flushModel raises c =
     (case cachedModelRoot c of
        None \<Rightarrow> Completed c
      | Some nextModelRoot \<Rightarrow>
          (case delegate raises (Update nextModelRoot) c of
             Completed c1 \<Rightarrow> Completed (c1\<lparr>cachedModelRoot := None\<rparr>)
           | Raised c1 \<Rightarrow> Raised c1))"

definition flushPopup :: "('a call \<Rightarrow> bool) \<Rightarrow> 'a ViewerCache \<Rightarrow> 'a flush" where
  "flushPopup raises c =
     (case cachedPopup c of
        None \<Rightarrow> Completed c
      | Some nextModelRoot \<Rightarrow>
          (case delegate raises (UpdatePopup nextModelRoot) c of
             Completed c1 \<Rightarrow> Completed (c1\<lparr>cachedPopup := None\<rparr>)
           | Raised c1 \<Rightarrow> Raised c1))"

definition callback :: "('a call \<Rightarrow> bool) \<Rightarrow> 'a ViewerCache \<Rightarrow> 'a flush" where
  "callback raises c =
     (case flushHidden raises c of
        Raised c1 \<Rightarrow> Raised c1
      | Completed c1 \<Rightarrow>
          (case flushModel raises c1 of
             Raised c2 \<Rightarrow> Raised c2
           | Completed c2 \<Rightarrow> flushPopup raises c2))"

text \<open>
  Modelled from the spec: the end of a frame at the frame notifier. A queued callback
  leaves the queue and runs; with nothing queued, nothing happens.
\<close>

definition endOfFrame :: "('a call \<Rightarrow> bool) \<Rightarrow> 'a ViewerCache \<Rightarrow> 'a flush" where
  "endOfFrame raises c =
     (case endTasks c of
        0 \<Rightarrow> Completed c
      | Suc k \<Rightarrow> callback raises (c\<lparr>endTasks := k\<rparr>))"

text \<open>The delegate that never raises.\<close>

definition quiet :: "'a call \<Rightarrow> bool" where
  "quiet x = False"

text \<open>The state a flush ends in, however it ends.\<close>

fun cache_of :: "'a flush \<Rightarrow> 'a ViewerCache" where
  "cache_of (Completed c) = c"
| "cache_of (Raised c) = c"

text \<open>A freshly constructed cache: nothing cached, nothing queued, nothing delegated.\<close>

definition new_cache :: "'a ViewerCache" where
  "new_cache = \<lparr>cachedModelRoot = None, cachedHiddenModelRoot = None, cachedPopup = None,
     endTasks = 0, delegated = []\<rparr>"

text \<open>The calls a client makes, and the frames that end in between.\<close>

datatype 'a event = DoUpdate 'a | DoUpdateHidden 'a | DoUpdatePopup 'a | Frame

fun run_event :: "'a event \<Rightarrow> 'a ViewerCache \<Rightarrow> 'a ViewerCache" where
  "run_event (DoUpdate m) c = update m c"
| "run_event (DoUpdateHidden m) c = updateHidden m c"
| "run_event (DoUpdatePopup m) c = updatePopup m c"
| "run_event Frame c = cache_of (endOfFrame quiet c)"

fun run_events :: "'a event list \<Rightarrow> 'a ViewerCache \<Rightarrow> 'a ViewerCache" where
  "run_events [] c = c"
| "run_events (e # es) c = run_events es (run_event e c)"


section \<open>Notions used in the statements\<close>

text \<open>
  What \<^verbatim>\<open>SModelIndex.add\<close> may change between two states: the id of an element whose id
  was unset, new entries of the index \<open>this\<close>, and the number of random values drawn.
\<close>

definition extends :: "iref \<Rightarrow> state \<Rightarrow> state \<Rightarrow> bool" where
  "extends this s s' =
     ((\<forall>r. kind (elems s' r) = kind (elems s r)
          \<and> type_e (elems s' r) = type_e (elems s r)
          \<and> children (elems s' r) = children (elems s r)
          \<and> parent (elems s' r) = parent (elems s r)
          \<and> (id_e (elems s r) \<noteq> [] \<longrightarrow> id_e (elems s' r) = id_e (elems s r)))
      \<and> (\<forall>j. j \<noteq> this \<longrightarrow> id2element s' j = id2element s j)
      \<and> id2element s this \<subseteq>\<^sub>m id2element s' this
      \<and> random s' = random s)"

text \<open>The contract of \<^verbatim>\<open>Math.random()\<close>: every value lies in \<open>[0, 1)\<close>.\<close>

definition unit_random :: "state \<Rightarrow> bool" where
  "unit_random s = (\<forall>n. 0 \<le> random s n \<and> random s n < 1)"

text \<open>
  The outcomes \<^verbatim>\<open>SModelIndex.add\<close> can have: it returns or throws \<open>DuplicateIdentifier\<close>, and
  the state it ends in extends the one it started in.
\<close>

definition settled :: "iref \<Rightarrow> state \<Rightarrow> unit outcome \<Rightarrow> bool" where
  "settled this s r =
     (case r of
        Returns u s' \<Rightarrow> extends this s s'
      | Throws x s' \<Rightarrow> x = DuplicateIdentifier \<and> extends this s s'
      | Hangs \<Rightarrow> True)"

text \<open>
  A pre-built subtree, as a value: the reference of an element with the subtrees of its
  children. \<open>nodes\<close> lists the references in the order \<^verbatim>\<open>SModelIndex.add\<close> visits them
  (an element before its children, the children from first to last), and \<open>shaped h t\<close>
  says that the \<^verbatim>\<open>children\<close> arrays of the store \<open>h\<close> spell out \<open>t\<close>.
\<close>

datatype tree = Node ref "tree list"

fun node :: "tree \<Rightarrow> ref" where
  "node (Node r ts) = r"

fun nodes :: "tree \<Rightarrow> ref list" where
  "nodes (Node r ts) = r # concat (map nodes ts)"

fun shaped :: "(ref \<Rightarrow> element) \<Rightarrow> tree \<Rightarrow> bool" where
  "shaped h (Node r ts) =
     ((case children (h r) of None \<Rightarrow> ts = [] | Some cs \<Rightarrow> cs = map node ts)
      \<and> (\<forall>t \<in> set ts. shaped h t))"

text \<open>
  The proper ancestors of the element \<open>d\<close> in the subtree \<open>t\<close>: the elements that have \<open>d\<close>
  among their descendants.
\<close>

fun above :: "tree \<Rightarrow> ref \<Rightarrow> ref list" where
  "above (Node r ts) d =
     (if d \<in> set (concat (map nodes ts)) then r # concat (map (\<lambda>u. above u d) ts) else [])"

text \<open>The ids the elements \<open>rs\<close> carry in state \<open>s\<close>.\<close>

definition ids_of :: "state \<Rightarrow> ref list \<Rightarrow> string list" where
  "ids_of s rs = map (\<lambda>r. id_e (elems s r)) rs"

text \<open>
  Registration of a list of elements one after the other, stopping at the first id that
  is already there: what \<^verbatim>\<open>SModelIndex.add\<close> comes to on a subtree whose ids are all set.
\<close>

fun register_all :: "iref \<Rightarrow> ref list \<Rightarrow> state \<Rightarrow> unit outcome" where
  "register_all this [] s = Returns () s"
| "register_all this (e # es) s =
     (if contains this e s then Throws DuplicateIdentifier s
      else register_all this es (register this e s))"

text \<open>The \<^verbatim>\<open>children\<close> array after \<^verbatim>\<open>add(child, i?)\<close> has written it.\<close>

definition placed :: "int option \<Rightarrow> ref \<Rightarrow> ref list \<Rightarrow> ref list" where
  "placed pos c cs = (case pos of None \<Rightarrow> cs @ [c] | Some k \<Rightarrow> splice_in (nat k) c cs)"

text \<open>The call throws, and the error is \<open>x\<close>.\<close>

definition fails_with :: "'a outcome \<Rightarrow> error \<Rightarrow> bool" where
  "fails_with r x = (case r of Throws y s \<Rightarrow> y = x | _ \<Rightarrow> False)"

text \<open>The content of a slot as a list: empty, or the one snapshot.\<close>

fun slot :: "'a option \<Rightarrow> 'a list" where
  "slot None = []"
| "slot (Some x) = [x]"

text \<open>The calls a flush owes the delegate, in the order of the three \<^verbatim>\<open>if\<close> blocks.\<close>

definition pending_calls :: "'a ViewerCache \<Rightarrow> 'a call list" where
  "pending_calls c =
     map UpdateHidden (slot (cachedHiddenModelRoot c)) @
     map Update (slot (cachedModelRoot c)) @
     map UpdatePopup (slot (cachedPopup c))"

text \<open>A delegate whose \<^verbatim>\<open>updateHidden\<close> raises; its other entry points return.\<close>

definition refuse_hidden :: "nat call \<Rightarrow> bool" where
  "refuse_hidden x = (case x of UpdateHidden m \<Rightarrow> True | _ \<Rightarrow> False)"

text \<open>A delegate whose \<^verbatim>\<open>update\<close> raises; its other entry points return.\<close>

definition refuse_update :: "nat call \<Rightarrow> bool" where
  "refuse_update x = (case x of Update m \<Rightarrow> True | _ \<Rightarrow> False)"

text \<open>
  The cache after \<^verbatim>\<open>updateHidden(1)\<close>, \<^verbatim>\<open>update(2)\<close> and a frame in which \<^verbatim>\<open>updateHidden\<close>
  raised.
\<close>

definition stuck_cache :: "nat ViewerCache" where
  "stuck_cache = \<lparr>cachedModelRoot = Some 2, cachedHiddenModelRoot = Some 1, cachedPopup = None,
     endTasks = 0, delegated = [UpdateHidden 1]\<rparr>"

text \<open>Exactly one callback is queued while a slot is filled, and none while all are empty.\<close>

definition armed_inv :: "'a ViewerCache \<Rightarrow> bool" where
  "armed_inv c = (endTasks c = (if isCacheEmpty c then 0 else 1))"

text \<open>
  A concrete model. Element 0 is a root with the children 1 (id a) and 2 (id b), all
  three registered in index 0. The other elements are not attached: 3 repeats the id a;
  4 (id c) has the child 5, which repeats the id b; 6 (id d) has the child 7 (id e);
  every other element, 8 and 9 among them, has no id yet. \<^verbatim>\<open>Math.random()\<close> returns 0
  eight times and 1/2 from then on.
\<close>

definition blank :: element where
  "blank = \<lparr>kind = SChildElement, type_e = ''node'', id_e = [], children = Some [], parent = None\<rparr>"

definition demo_elems :: "ref \<Rightarrow> element" where
  "demo_elems =
     (\<lambda>r. blank)
     (0 := \<lparr>kind = SModelRoot 0, type_e = ''graph'', id_e = ''root'', children = Some [1, 2], parent = None\<rparr>,
      1 := blank\<lparr>id_e := ''a'', parent := Some 0\<rparr>,
      2 := blank\<lparr>id_e := ''b'', parent := Some 0\<rparr>,
      3 := blank\<lparr>id_e := ''a''\<rparr>,
      4 := blank\<lparr>id_e := ''c'', children := Some [5]\<rparr>,
      5 := blank\<lparr>id_e := ''b'', parent := Some 4\<rparr>,
      6 := blank\<lparr>id_e := ''d'', children := Some [7]\<rparr>,
      7 := blank\<lparr>id_e := ''e'', parent := Some 6\<rparr>)"

definition demo :: state where
  "demo = \<lparr>elems = demo_elems,
     id2element = (\<lambda>j. Map.empty)(0 := [''root'' \<mapsto> 0, ''a'' \<mapsto> 1, ''b'' \<mapsto> 2]),
     random = (\<lambda>n. if n < 8 then 0 else 1 / 2),
     drawn = 0\<rparr>"

text \<open>The model after \<^verbatim>\<open>index.add\<close> of element 8, and then of element 9.\<close>

definition demo1 :: state where
  "demo1 = register 0 8 (set_id 8 ''00000000'' (demo\<lparr>drawn := 8\<rparr>))"


section \<open>Properties\<close>

subsection \<open>Random ids and the retry loop\<close>

lemma extends_refl: "extends this s s"
  by (simp add: extends_def)

lemma extends_trans: "extends this s s1 \<Longrightarrow> extends this s1 s2 \<Longrightarrow> extends this s s2"
  unfolding extends_def by (auto intro: map_le_trans)

lemma createRandomId_loop_snd:
  "snd (createRandomId_loop n acc s) = s\<lparr>drawn := drawn s + n\<rparr>"
  by (induction n acc s rule: createRandomId_loop.induct) (simp_all add: random_index_def)

lemma charAt_ID_CHARS:
  assumes "0 \<le> x" and "x < 1"
  shows "length (charAt ID_CHARS \<lfloor>x * real (length ID_CHARS)\<rfloor>) = 1
       \<and> set (charAt ID_CHARS \<lfloor>x * real (length ID_CHARS)\<rfloor>) \<subseteq> set ID_CHARS"
proof -
  define k where "k = \<lfloor>x * real (length ID_CHARS)\<rfloor>"
  have len: "length ID_CHARS = 36" by (simp add: ID_CHARS_def)
  have "0 \<le> x * 36" using assms by simp
  then have lo: "0 \<le> k" by (simp add: k_def len)
  have "x * 36 < 36" using assms by simp
  then have hi: "k < 36" by (simp add: k_def len floor_less_iff)
  from lo hi have "nat k < length ID_CHARS" using len by linarith
  then have mem: "ID_CHARS ! nat k \<in> set ID_CHARS" by (rule nth_mem)
  have "charAt ID_CHARS k = [ID_CHARS ! nat k]" using lo hi len by (simp add: charAt_def)
  then show ?thesis using mem unfolding k_def [symmetric] by simp
qed

lemma createRandomId_loop_fst:
  "unit_random s \<Longrightarrow>
     length (fst (createRandomId_loop n acc s)) = length acc + n
     \<and> set (fst (createRandomId_loop n acc s)) \<subseteq> set acc \<union> set ID_CHARS"
proof (induction n acc s rule: createRandomId_loop.induct)
  case (1 ident s)
  then show ?case by simp
next
  case (2 n ident s)
  have u: "unit_random (s\<lparr>drawn := Suc (drawn s)\<rparr>)" using "2.prems" by (simp add: unit_random_def)
  have c: "length (charAt ID_CHARS \<lfloor>random s (drawn s) * real (length ID_CHARS)\<rfloor>) = 1
       \<and> set (charAt ID_CHARS \<lfloor>random s (drawn s) * real (length ID_CHARS)\<rfloor>) \<subseteq> set ID_CHARS"
    using "2.prems" by (intro charAt_ID_CHARS) (simp_all add: unit_random_def)
  from "2.IH" [OF _ u, of "\<lfloor>random s (drawn s) * real (length ID_CHARS)\<rfloor>"] c
  show ?case by (auto simp: random_index_def)
qed

lemma fresh_id_loop_result:
  "fresh_id_loop n this e s \<noteq> Hangs \<Longrightarrow>
     \<exists>v k. fresh_id_loop n this e s =
              Returns () (s\<lparr>elems := (elems s)(e := (elems s e)\<lparr>id_e := v\<rparr>), drawn := k\<rparr>)
       \<and> id2element s this v = None
       \<and> (unit_random s \<longrightarrow> length v = 8 \<and> set v \<subseteq> set ID_CHARS)"
proof (induction n this e s rule: fresh_id_loop.induct)
  case (1 this e s)
  then show ?case by simp
next
  case (2 n this e s)
  define v where "v = fst (createRandomId 8 s)"
  define s2 where "s2 = s\<lparr>elems := (elems s)(e := (elems s e)\<lparr>id_e := v\<rparr>), drawn := drawn s + 8\<rparr>"
  have c: "createRandomId 8 s = (v, s\<lparr>drawn := drawn s + 8\<rparr>)"
    using createRandomId_loop_snd [of 8 "[]" s] by (simp add: createRandomId_def v_def prod_eq_iff)
  have s2: "set_id e v (s\<lparr>drawn := drawn s + 8\<rparr>) = s2" by (simp add: set_id_def s2_def)
  have vok: "unit_random s \<longrightarrow> length v = 8 \<and> set v \<subseteq> set ID_CHARS"
    using createRandomId_loop_fst [of s 8 "[]"] by (auto simp: createRandomId_def v_def)
  show ?case
  proof (cases "contains this e s2")
    case False
    then have "fresh_id_loop (Suc n) this e s = Returns () s2" using c s2 by simp
    moreover have "id2element s this v = None" using False by (simp add: contains_def s2_def)
    ultimately show ?thesis using vok unfolding s2_def by blast
  next
    case True
    then have step: "fresh_id_loop (Suc n) this e s = fresh_id_loop n this e s2" using c s2 by simp
    then have nh: "fresh_id_loop n this e s2 \<noteq> Hangs" using "2.prems" by simp
    have "\<exists>v' k. fresh_id_loop n this e s2 =
        Returns () (s2\<lparr>elems := (elems s2)(e := (elems s2 e)\<lparr>id_e := v'\<rparr>), drawn := k\<rparr>)
      \<and> id2element s2 this v' = None
      \<and> (unit_random s2 \<longrightarrow> length v' = 8 \<and> set v' \<subseteq> set ID_CHARS)"
      using "2.IH" [OF c [symmetric] refl] True nh unfolding s2 by blast
    then obtain v' k where h: "fresh_id_loop n this e s2 =
        Returns () (s2\<lparr>elems := (elems s2)(e := (elems s2 e)\<lparr>id_e := v'\<rparr>), drawn := k\<rparr>)"
      "id2element s2 this v' = None"
      "unit_random s2 \<longrightarrow> length v' = 8 \<and> set v' \<subseteq> set ID_CHARS" by blast
    have eq: "s2\<lparr>elems := (elems s2)(e := (elems s2 e)\<lparr>id_e := v'\<rparr>), drawn := k\<rparr>
        = s\<lparr>elems := (elems s)(e := (elems s e)\<lparr>id_e := v'\<rparr>), drawn := k\<rparr>"
      by (simp add: s2_def)
    have u: "unit_random s2 = unit_random s" by (simp add: unit_random_def s2_def)
    have i: "id2element s2 = id2element s" by (simp add: s2_def)
    have "fresh_id_loop (Suc n) this e s =
        Returns () (s\<lparr>elems := (elems s)(e := (elems s e)\<lparr>id_e := v'\<rparr>), drawn := k\<rparr>)"
      by (simp only: step h(1) eq)
    moreover have "id2element s this v' = None" using h(2) by (simp only: i)
    moreover have "unit_random s \<longrightarrow> length v' = 8 \<and> set v' \<subseteq> set ID_CHARS"
      using h(3) by (simp only: u)
    ultimately show ?thesis by blast
  qed
qed

subsection \<open>What SModelIndex.add changes\<close>

lemma settled_trans: "extends this s s1 \<Longrightarrow> settled this s1 r \<Longrightarrow> settled this s r"
  by (cases r) (auto simp: settled_def intro: extends_trans)

lemma extends_register:
  "\<not> contains this e s \<Longrightarrow> extends this s (register this e s)"
  by (auto simp: extends_def register_def contains_def map_le_def)

lemma id_phase:
  fixes n this e s
  defines "pre \<equiv> (if id_e (elems s e) = [] then fresh_id_loop n this e s
                  else if contains this e s then Throws DuplicateIdentifier s
                  else Returns () s)"
  shows "pre = Hangs
       \<or> (pre = Throws DuplicateIdentifier s \<and> id_e (elems s e) \<noteq> [] \<and> contains this e s)
       \<or> (\<exists>s1. pre = Returns () s1 \<and> extends this s s1 \<and> id2element s1 = id2element s
              \<and> id2element s this (id_e (elems s1 e)) = None
              \<and> (id_e (elems s e) \<noteq> [] \<longrightarrow> s1 = s)
              \<and> (id_e (elems s e) = [] \<longrightarrow> unit_random s \<longrightarrow>
                    length (id_e (elems s1 e)) = 8 \<and> set (id_e (elems s1 e)) \<subseteq> set ID_CHARS))"
proof (cases "id_e (elems s e) = []")
  case True
  then have p: "pre = fresh_id_loop n this e s" by (simp add: pre_def)
  show ?thesis
  proof (cases "pre = Hangs")
    case False
    then obtain v k where h:
      "pre = Returns () (s\<lparr>elems := (elems s)(e := (elems s e)\<lparr>id_e := v\<rparr>), drawn := k\<rparr>)"
      "id2element s this v = None"
      "unit_random s \<longrightarrow> length v = 8 \<and> set v \<subseteq> set ID_CHARS"
      using fresh_id_loop_result [of n this e s] p by auto
    define s1 where "s1 = s\<lparr>elems := (elems s)(e := (elems s e)\<lparr>id_e := v\<rparr>), drawn := k\<rparr>"
    have "extends this s s1" using True by (simp add: extends_def s1_def)
    moreover have "id2element s1 = id2element s" "id_e (elems s1 e) = v" by (simp_all add: s1_def)
    ultimately show ?thesis using h True unfolding s1_def [symmetric] by simp
  qed simp
next
  case False
  then show ?thesis by (auto simp: pre_def contains_def extends_refl)
qed

lemma index_add_settled:
  "settled this s (index_add n this e s)"
  "settled this s (index_add_each n this es s)"
proof (induction n this e s and n this es s rule: index_add_index_add_each.induct)
  case (1 this e s)
  then show ?case by (simp add: settled_def)
next
  case (2 n this e s)
  define pre where "pre = (if id_e (elems s e) = [] then fresh_id_loop n this e s
                  else if contains this e s then Throws DuplicateIdentifier s
                  else Returns () s)"
  have unf: "index_add (Suc n) this e s =
     (case pre of
        Returns u s1 \<Rightarrow>
          (let s2 = register this e s1
           in case children (elems s2 e) of
                None \<Rightarrow> Returns () s2
              | Some cs \<Rightarrow> index_add_each n this cs s2)
      | Throws x s1 \<Rightarrow> Throws x s1
      | Hangs \<Rightarrow> Hangs)" by (simp add: pre_def)
  from id_phase [of s e n this, folded pre_def]
  consider "pre = Hangs" | "pre = Throws DuplicateIdentifier s"
    | s1 where "pre = Returns () s1" "extends this s s1" "id2element s1 = id2element s"
        "id2element s this (id_e (elems s1 e)) = None" by blast
  then show ?case
  proof cases
    case 1
    then show ?thesis by (simp add: unf settled_def del: index_add.simps)
  next
    case 2
    then show ?thesis by (simp add: unf settled_def extends_refl del: index_add.simps)
  next
    case 3
    have nc: "\<not> contains this e s1" using 3 by (simp add: contains_def)
    have e2: "extends this s (register this e s1)"
      using 3(2) extends_register [OF nc] by (rule extends_trans)
    show ?thesis
    proof (cases "children (elems (register this e s1) e)")
      case None
      then show ?thesis using 3(1) e2 by (simp add: unf settled_def del: index_add.simps)
    next
      case (Some cs)
      have "settled this (register this e s1) (index_add_each n this cs (register this e s1))"
        using "2.IH" [OF 3(1) [unfolded pre_def] refl Some] .
      then show ?thesis using 3(1) Some e2 by (simp add: unf settled_trans del: index_add.simps)
    qed
  qed
next
  case (3 n this s)
  then show ?case by (simp add: settled_def extends_refl)
next
  case (4 n this c cs s)
  show ?case
  proof (cases "index_add n this c s")
    case (Returns u s1)
    then have "extends this s s1" using "4.IH"(1) by (simp add: settled_def)
    moreover have "settled this s1 (index_add_each n this cs s1)" using "4.IH"(2) [OF Returns] .
    ultimately show ?thesis using Returns by (simp add: settled_trans)
  next
    case (Throws x s1)
    then show ?thesis using "4.IH"(1) by (simp add: settled_def)
  next
    case Hangs
    then show ?thesis by (simp add: settled_def)
  qed
qed

subsection \<open>SModelIndex.add on a subtree\<close>

lemma register_all_elems:
  "register_all this es s = Returns u s1 \<Longrightarrow> elems s1 = elems s"
  by (induction es arbitrary: s) (auto simp: register_def split: if_splits)

lemma register_all_append:
  "register_all this (xs @ ys) s =
     (case register_all this xs s of
        Returns u s1 \<Rightarrow> register_all this ys s1
      | Throws x s1 \<Rightarrow> Throws x s1
      | Hangs \<Rightarrow> Hangs)"
  by (induction xs arbitrary: s) simp_all

lemma index_add_each_trees:
  assumes IH: "\<And>t n s. t \<in> set ts \<Longrightarrow> shaped (elems s) t \<Longrightarrow>
      \<forall>r \<in> set (nodes t). id_e (elems s r) \<noteq> [] \<Longrightarrow> length (nodes t) \<le> n \<Longrightarrow>
      index_add n this (node t) s = register_all this (nodes t) s"
  shows "set us \<subseteq> set ts \<Longrightarrow> \<forall>t \<in> set us. shaped (elems s) t \<Longrightarrow>
      \<forall>r \<in> set (concat (map nodes us)). id_e (elems s r) \<noteq> [] \<Longrightarrow>
      length (concat (map nodes us)) \<le> n \<Longrightarrow>
      index_add_each n this (map node us) s = register_all this (concat (map nodes us)) s"
proof (induction us arbitrary: s)
  case Nil
  then show ?case by simp
next
  case (Cons u us)
  have one: "index_add n this (node u) s = register_all this (nodes u) s"
    using Cons.prems by (intro IH) auto
  show ?case
  proof (cases "register_all this (nodes u) s")
    case (Returns x s1)
    then have el: "elems s1 = elems s" by (rule register_all_elems)
    have "index_add_each n this (map node us) s1 = register_all this (concat (map nodes us)) s1"
      using Cons.prems by (intro Cons.IH) (auto simp: el)
    then show ?thesis using one Returns by (simp add: register_all_append)
  next
    case (Throws x s1)
    then show ?thesis using one by (simp add: register_all_append)
  next
    case Hangs
    then show ?thesis using one by (simp add: register_all_append)
  qed
qed

lemma index_add_tree:
  "shaped (elems s) t \<Longrightarrow> \<forall>r \<in> set (nodes t). id_e (elems s r) \<noteq> [] \<Longrightarrow>
     length (nodes t) \<le> n \<Longrightarrow>
     index_add n this (node t) s = register_all this (nodes t) s"
proof (induction t arbitrary: n s)
  case (Node r ts)
  from Node.prems(3) obtain m where n: "n = Suc m" and m: "length (concat (map nodes ts)) \<le> m"
    by (cases n) auto
  have idr: "id_e (elems s r) \<noteq> []" using Node.prems(2) by simp
  show ?case
  proof (cases "contains this r s")
    case True
    then show ?thesis using idr by (simp add: n)
  next
    case False
    define s2 where "s2 = register this r s"
    have el: "elems s2 = elems s" by (simp add: s2_def register_def)
    have kids: "index_add_each m this (map node ts) s2 = register_all this (concat (map nodes ts)) s2"
    proof (rule index_add_each_trees [where ts = ts])
      show "set ts \<subseteq> set ts" by simp
      show "\<forall>t \<in> set ts. shaped (elems s2) t" using Node.prems(1) by (simp add: el)
      show "\<forall>r \<in> set (concat (map nodes ts)). id_e (elems s2 r) \<noteq> []"
        using Node.prems(2) by (simp add: el)
      show "length (concat (map nodes ts)) \<le> m" by (rule m)
    next
      fix t n and s :: state
      assume "t \<in> set ts" "shaped (elems s) t" "\<forall>r \<in> set (nodes t). id_e (elems s r) \<noteq> []"
        "length (nodes t) \<le> n"
      then show "index_add n this (node t) s = register_all this (nodes t) s"
        by (rule Node.IH)
    qed
    show ?thesis
    proof (cases "children (elems s r)")
      case None
      then have "ts = []" using Node.prems(1) by simp
      then show ?thesis using False idr None by (simp add: n el s2_def [symmetric])
    next
      case (Some cs)
      then have "cs = map node ts" using Node.prems(1) by simp
      then show ?thesis using False idr Some kids by (simp add: n el s2_def [symmetric])
    qed
  qed
qed

lemma fold_register_frame:
  "elems (fold (register this) es s) = elems s
   \<and> random (fold (register this) es s) = random s
   \<and> drawn (fold (register this) es s) = drawn s
   \<and> (\<forall>j. j \<noteq> this \<longrightarrow> id2element (fold (register this) es s) j = id2element s j)"
  by (induction es arbitrary: s) (simp_all add: register_def)

lemma elems_register [simp]: "elems (register this e s) = elems s"
  by (simp add: register_def)

lemma ids_of_register [simp]: "ids_of (register this e s) rs = ids_of s rs"
  by (simp add: ids_of_def)

lemma ids_of_simps [simp]:
  "ids_of s [] = []"
  "ids_of s (e # es) = id_e (elems s e) # ids_of s es"
  "ids_of s (xs @ ys) = ids_of s xs @ ids_of s ys"
  "length (ids_of s es) = length es"
  by (simp_all add: ids_of_def)

lemma dom_register [simp]:
  "dom (id2element (register this e s) this) = insert (id_e (elems s e)) (dom (id2element s this))"
  by (simp add: register_def)

lemma dom_fold_register:
  "dom (id2element (fold (register this) es s) this)
     = dom (id2element s this) \<union> set (ids_of s es)"
proof (induction es arbitrary: s)
  case Nil
  then show ?case by simp
next
  case (Cons e es)
  show ?case using Cons.IH [of "register this e s"] by simp
qed

lemma fold_register_map_le:
  "distinct (ids_of s es) \<Longrightarrow> set (ids_of s es) \<inter> dom (id2element s this) = {} \<Longrightarrow>
     id2element s this \<subseteq>\<^sub>m id2element (fold (register this) es s) this"
proof (induction es arbitrary: s)
  case Nil
  then show ?case by simp
next
  case (Cons e es)
  have a: "id2element s this \<subseteq>\<^sub>m id2element (register this e s) this"
    using Cons.prems(2) by (auto simp: map_le_def register_def)
  have "id2element (register this e s) this
      \<subseteq>\<^sub>m id2element (fold (register this) es (register this e s)) this"
    using Cons.prems by (intro Cons.IH) auto
  with a show ?case by (simp add: map_le_trans)
qed

lemma register_all_fresh:
  "distinct (ids_of s es) \<Longrightarrow> set (ids_of s es) \<inter> dom (id2element s this) = {} \<Longrightarrow>
     register_all this es s = Returns () (fold (register this) es s)"
proof (induction es arbitrary: s)
  case Nil
  then show ?case by simp
next
  case (Cons e es)
  have nc: "\<not> contains this e s" using Cons.prems(2) by (auto simp: contains_def)
  have "register_all this es (register this e s)
      = Returns () (fold (register this) es (register this e s))"
    using Cons.prems by (intro Cons.IH) auto
  then show ?case using nc by simp
qed

lemma register_all_collision:
  assumes "distinct (ids_of s pre)" and "set (ids_of s pre) \<inter> dom (id2element s this) = {}"
    and "id_e (elems s d) \<in> dom (id2element s this) \<union> set (ids_of s pre)"
  shows "register_all this (pre @ d # post) s
       = Throws DuplicateIdentifier (fold (register this) pre s)"
proof -
  have "contains this d (fold (register this) pre s)"
    using assms(3) dom_fold_register [of this pre s] fold_register_frame [of this pre s]
    by (auto simp: contains_def)
  then show ?thesis
    using register_all_fresh [OF assms(1,2)] by (simp add: register_all_append)
qed

lemma register_all_stale:
  "\<not> (distinct (ids_of s es) \<and> set (ids_of s es) \<inter> dom (id2element s this) = {}) \<Longrightarrow>
     \<exists>pre d post. es = pre @ d # post \<and> distinct (ids_of s pre)
        \<and> set (ids_of s pre) \<inter> dom (id2element s this) = {}
        \<and> id_e (elems s d) \<in> dom (id2element s this) \<union> set (ids_of s pre)"
proof (induction es rule: rev_induct)
  case Nil
  then show ?case by simp
next
  case (snoc x xs)
  show ?case
  proof (cases "distinct (ids_of s xs) \<and> set (ids_of s xs) \<inter> dom (id2element s this) = {}")
    case True
    then have "id_e (elems s x) \<in> dom (id2element s this) \<union> set (ids_of s xs)"
      using snoc.prems by auto
    then show ?thesis using True by (intro exI [of _ xs] exI [of _ x] exI [of _ "[]"]) simp
  next
    case False
    then obtain pre d post where "xs = pre @ d # post" "distinct (ids_of s pre)"
      "set (ids_of s pre) \<inter> dom (id2element s this) = {}"
      "id_e (elems s d) \<in> dom (id2element s this) \<union> set (ids_of s pre)"
      using snoc.IH by blast
    then show ?thesis by (intro exI [of _ pre] exI [of _ d] exI [of _ "post @ [x]"]) simp
  qed
qed

lemma card_new_ids:
  assumes "distinct ids" and "set ids \<inter> D = {}"
  shows "card ((D \<union> set ids) - D) = length ids"
proof -
  have "(D \<union> set ids) - D = set ids" using assms(2) by auto
  then show ?thesis using assms(1) by (simp add: distinct_card)
qed

lemma index_add_fresh_tree:
  assumes "shaped (elems s) t"
    and "\<forall>r \<in> set (nodes t). id_e (elems s r) \<noteq> []"
    and "length (nodes t) \<le> n"
    and "distinct (ids_of s (nodes t))"
    and "set (ids_of s (nodes t)) \<inter> dom (id2element s this) = {}"
  shows "index_add n this (node t) s = Returns () (fold (register this) (nodes t) s)"
  using index_add_tree [OF assms(1,2,3)] register_all_fresh [OF assms(4,5)] by simp

lemma index_add_stale_tree:
  assumes "shaped (elems s) t"
    and "\<forall>r \<in> set (nodes t). id_e (elems s r) \<noteq> []"
    and "length (nodes t) \<le> n"
    and "\<not> (distinct (ids_of s (nodes t))
            \<and> set (ids_of s (nodes t)) \<inter> dom (id2element s this) = {})"
  shows "\<exists>pre d post. nodes t = pre @ d # post
           \<and> index_add n this (node t) s
               = Throws DuplicateIdentifier (fold (register this) pre s)
           \<and> id2element s this \<subseteq>\<^sub>m id2element (fold (register this) pre s) this
           \<and> dom (id2element (fold (register this) pre s) this)
               = dom (id2element s this) \<union> set (ids_of s pre)"
proof -
  have flat: "index_add n this (node t) s = register_all this (nodes t) s"
    using assms(1,2,3) by (rule index_add_tree)
  obtain pre d post where h: "nodes t = pre @ d # post" "distinct (ids_of s pre)"
      "set (ids_of s pre) \<inter> dom (id2element s this) = {}"
      "id_e (elems s d) \<in> dom (id2element s this) \<union> set (ids_of s pre)"
    using register_all_stale [OF assms(4)] by blast
  have "index_add n this (node t) s = Throws DuplicateIdentifier (fold (register this) pre s)"
    using register_all_collision [OF h(2,3,4)] by (simp add: flat h(1))
  then show ?thesis
    using h(1) fold_register_map_le [OF h(2,3)] dom_fold_register [of this pre s] by blast
qed

lemma fold_register_other_key:
  "k \<notin> set (ids_of s es) \<Longrightarrow>
     id2element (fold (register this) es s) this k = id2element s this k"
proof (induction es arbitrary: s)
  case Nil
  then show ?case by simp
next
  case (Cons e es)
  have "id2element (fold (register this) es (register this e s)) this k
      = id2element (register this e s) this k"
    using Cons.prems by (intro Cons.IH) simp
  moreover have "id2element (register this e s) this k = id2element s this k"
    using Cons.prems by (simp add: register_def)
  ultimately show ?case by simp
qed

lemma fold_register_lookup:
  "distinct (ids_of s es) \<Longrightarrow> e \<in> set es \<Longrightarrow>
     id2element (fold (register this) es s) this (id_e (elems s e)) = Some e"
proof (induction es arbitrary: s)
  case Nil
  then show ?case by simp
next
  case (Cons a es)
  show ?case
  proof (cases "id_e (elems s e) = id_e (elems s a)")
    case True
    have "e \<in> set es \<Longrightarrow> id_e (elems s e) \<in> set (ids_of s es)" by (simp add: ids_of_def)
    then have ea: "e = a" using Cons.prems True by auto
    have "id_e (elems s a) \<notin> set (ids_of (register this a s) es)" using Cons.prems(1) by simp
    then have "id2element (fold (register this) es (register this a s)) this (id_e (elems s a))
        = id2element (register this a s) this (id_e (elems s a))"
      by (rule fold_register_other_key)
    moreover have "id2element (register this a s) this (id_e (elems s a)) = Some a"
      by (simp add: register_def)
    ultimately show ?thesis using ea by simp
  next
    case False
    then have "e \<in> set es" using Cons.prems(2) by auto
    then have "id2element (fold (register this) es (register this a s)) this
        (id_e (elems (register this a s) e)) = Some e"
      using Cons.prems(1) by (intro Cons.IH) simp_all
    then show ?thesis by simp
  qed
qed

lemma above_nodes: "a \<in> set (above t d) \<Longrightarrow> d \<in> set (nodes t)"
  by (cases t) (auto split: if_splits)

lemma above_before:
  "distinct (nodes t) \<Longrightarrow> nodes t = pre @ d # post \<Longrightarrow> set (above t d) \<subseteq> set pre"
proof (induction t arbitrary: pre post)
  case (Node r ts)
  show ?case
  proof (cases "d \<in> set (concat (map nodes ts))")
    case False
    then show ?thesis by simp
  next
    case True
    then have dr: "d \<noteq> r" using Node.prems(1) by auto
    then obtain pre' where pre: "pre = r # pre'"
      and kids: "concat (map nodes ts) = pre' @ d # post"
      using Node.prems(2) by (cases pre) auto
    have dk: "distinct (concat (map nodes ts))" using Node.prems(1) by simp
    have "set (above u d) \<subseteq> set pre'" if u: "u \<in> set ts" for u
    proof (cases "d \<in> set (nodes u)")
      case False
      then show ?thesis using above_nodes [of _ u d] by auto
    next
      case True
      obtain ts1 ts2 where ts: "ts = ts1 @ u # ts2" using u by (auto simp: in_set_conv_decomp)
      obtain p1 p2 where pu: "nodes u = p1 @ d # p2" using True by (auto simp: in_set_conv_decomp)
      have whole: "concat (map nodes ts) = (concat (map nodes ts1) @ p1) @ d # (p2 @ concat (map nodes ts2))"
        by (simp add: ts pu)
      have "d \<notin> set pre'" "d \<notin> set post" using dk kids by auto
      then have "pre' = concat (map nodes ts1) @ p1"
        using kids whole by (metis append_Cons_eq_iff)
      moreover have "distinct (nodes u)" using dk ts by simp
      then have "set (above u d) \<subseteq> set p1" using pu u by (intro Node.IH) auto
      ultimately show ?thesis by auto
    qed
    then show ?thesis using True pre by auto
  qed
qed

lemma index_add_first_taken:
  assumes "shaped (elems s) t"
    and "\<forall>r \<in> set (nodes t). id_e (elems s r) \<noteq> []"
    and "length (nodes t) \<le> n"
    and "\<not> (distinct (ids_of s (nodes t))
            \<and> set (ids_of s (nodes t)) \<inter> dom (id2element s this) = {})"
  shows "\<exists>pre d post. nodes t = pre @ d # post
           \<and> distinct (ids_of s pre)
           \<and> set (ids_of s pre) \<inter> dom (id2element s this) = {}
           \<and> id_e (elems s d) \<in> dom (id2element s this) \<union> set (ids_of s pre)
           \<and> index_add n this (node t) s
               = Throws DuplicateIdentifier (fold (register this) pre s)
           \<and> id2element s this \<subseteq>\<^sub>m id2element (fold (register this) pre s) this
           \<and> dom (id2element (fold (register this) pre s) this)
               = dom (id2element s this) \<union> set (ids_of s pre)
           \<and> (\<forall>e \<in> set pre.
                 id2element (fold (register this) pre s) this (id_e (elems s e)) = Some e)
           \<and> (distinct (nodes t) \<longrightarrow> set (above t d) \<subseteq> set pre)"
proof -
  have flat: "index_add n this (node t) s = register_all this (nodes t) s"
    using assms(1,2,3) by (rule index_add_tree)
  obtain pre d post where h: "nodes t = pre @ d # post" "distinct (ids_of s pre)"
      "set (ids_of s pre) \<inter> dom (id2element s this) = {}"
      "id_e (elems s d) \<in> dom (id2element s this) \<union> set (ids_of s pre)"
    using register_all_stale [OF assms(4)] by blast
  have "index_add n this (node t) s = Throws DuplicateIdentifier (fold (register this) pre s)"
    using register_all_collision [OF h(2,3,4)] by (simp add: flat h(1))
  moreover have "\<forall>e \<in> set pre.
      id2element (fold (register this) pre s) this (id_e (elems s e)) = Some e"
    using fold_register_lookup [OF h(2)] by blast
  moreover have "distinct (nodes t) \<longrightarrow> set (above t d) \<subseteq> set pre"
    using above_before [OF _ h(1)] by blast
  ultimately show ?thesis
    using h fold_register_map_le [OF h(2,3)] dom_fold_register [of this pre s] by blast
qed

lemma index_add_contained:
  "contains this e s \<Longrightarrow> id_e (elems s e) \<noteq> [] \<Longrightarrow>
     index_add (Suc n) this e s = Throws DuplicateIdentifier s"
  by simp

subsection \<open>SParentElement.add\<close>

lemma root_loop_outcome:
  "root_loop n s cur = Hangs
   \<or> root_loop n s cur = Throws DetachedElement s
   \<or> (\<exists>r i. root_loop n s cur = Returns r s \<and> kind (elems s r) = SModelRoot i)"
  by (induction n s cur rule: root_loop.induct) (auto split: kind.splits)

lemma root_loop_frame:
  assumes "root_loop n s cur = Returns r s"
    and "parent (elems s c) = None"
    and "\<forall>x. kind (elems s1 x) = kind (elems s x)"
    and "\<forall>x. x \<noteq> c \<longrightarrow> parent (elems s1 x) = parent (elems s x)"
  shows "root_loop n s1 cur = Returns r s1"
  using assms
proof (induction n s cur rule: root_loop.induct)
  case (3 n s current)
  show ?case
  proof (cases "kind (elems s current)")
    case SChildElement
    then have step: "root_loop n s (parent (elems s current)) = Returns r s"
      using "3.prems"(1) by simp
    then have "current \<noteq> c" using "3.prems"(2) by auto
    then have "parent (elems s1 current) = parent (elems s current)" using "3.prems"(4) by simp
    moreover have "root_loop n s1 (parent (elems s current)) = Returns r s1"
      using "3.IH" SChildElement step "3.prems"(2,3,4) by blast
    ultimately show ?thesis using SChildElement "3.prems"(3) by simp
  qed (use "3.prems" in auto)
qed simp_all

lemma index_e_outcome:
  "index_e n p s = Hangs \<or> index_e n p s = Throws DetachedElement s
   \<or> (\<exists>i. index_e n p s = Returns i s)"
  using root_loop_outcome [of n s "Some p"]
  by (cases "kind (elems s p)") (auto simp: index_e_def root_e_def)

lemma index_e_frame:
  assumes "index_e n p s = Returns i s"
    and "parent (elems s c) = None"
    and "\<forall>x. kind (elems s1 x) = kind (elems s x)"
    and "\<forall>x. x \<noteq> c \<longrightarrow> parent (elems s1 x) = parent (elems s x)"
  shows "index_e n p s1 = Returns i s1"
proof (cases "\<exists>j. kind (elems s p) = SModelRoot j")
  case True
  then show ?thesis using assms(1,3) by (auto simp: index_e_def)
next
  case False
  then have via: "index_e n p s =
      (case root_loop n s (Some p) of
         Returns r s' \<Rightarrow>
           (case kind (elems s' r) of SModelRoot i \<Rightarrow> Returns i s' | _ \<Rightarrow> Throws TypeError s')
       | Throws e s' \<Rightarrow> Throws e s'
       | Hangs \<Rightarrow> Hangs)"
    by (cases "kind (elems s p)") (simp_all add: index_e_def root_e_def)
  from root_loop_outcome [of n s "Some p"] assms(1)
  obtain r where r: "root_loop n s (Some p) = Returns r s" "kind (elems s r) = SModelRoot i"
    unfolding via by auto
  have "root_loop n s1 (Some p) = Returns r s1" using r(1) assms(2,3,4) by (rule root_loop_frame)
  then show ?thesis using r(2) assms(3) False
    by (cases "kind (elems s p)") (simp_all add: index_e_def root_e_def)
qed

lemma shaped_cong:
  "\<forall>r \<in> set (nodes t). children (h' r) = children (h r) \<Longrightarrow> shaped h' t = shaped h t"
  by (induction t) auto

lemma add_attach:
  assumes "children (elems s p) = Some cs"
    and "pos = None \<or> (\<exists>k. pos = Some k \<and> 0 \<le> k \<and> k \<le> int (length cs))"
  shows "add n p c pos s = attach n p c (set_children p (placed pos c cs) s)"
  using assms by (auto simp: add_def placed_def)

text \<open>
  Claim C1, as the code has it. \<^verbatim>\<open>p.add(c, i?)\<close> writes \<^verbatim>\<open>p.children\<close> and \<^verbatim>\<open>c.parent\<close>
  before it registers \<open>c\<close>, and nothing undoes the two writes when the registration
  throws. Let \<open>p\<close> be a parent whose root resolves to the index \<open>i\<close>, \<open>c\<close> a detached
  child whose subtree \<open>t\<close> does not contain \<open>p\<close> and has all ids set, and let some id of
  the subtree collide (with the index or inside the subtree). With the position omitted
  or in range, the call throws \<open>DuplicateIdentifier\<close>, and in the state it leaves \<open>c\<close> is
  in \<^verbatim>\<open>p.children\<close> at the requested position, \<^verbatim>\<open>c.parent\<close> is \<open>p\<close>, the index still
  holds every entry it held, and the index is unchanged when the id of \<open>c\<close> itself is the
  one that collides.
\<close>

theorem add_duplicate_stays_attached:
  assumes kids: "children (elems s p) = Some cs"
    and pos: "pos = None \<or> (\<exists>k. pos = Some k \<and> 0 \<le> k \<and> k \<le> int (length cs))"
    and detached: "parent (elems s c) = None"
    and idx: "index_e n p s = Returns i s"
    and tree: "shaped (elems s) t" "node t = c" "p \<notin> set (nodes t)"
    and ids: "\<forall>r \<in> set (nodes t). id_e (elems s r) \<noteq> []"
    and fuel: "length (nodes t) \<le> n"
    and dup: "\<not> (distinct (ids_of s (nodes t))
                \<and> set (ids_of s (nodes t)) \<inter> dom (id2element s i) = {})"
  shows "\<exists>s'. add n p c pos s = Throws DuplicateIdentifier s'
      \<and> children (elems s' p) = Some (placed pos c cs)
      \<and> c \<in> set (placed pos c cs)
      \<and> parent (elems s' c) = Some p
      \<and> id2element s i \<subseteq>\<^sub>m id2element s' i
      \<and> (contains i c s \<longrightarrow> id2element s' = id2element s)"
proof -
  define s1 where "s1 = set_parent c (Some p) (set_children p (placed pos c cs) s)"
  have pc: "p \<noteq> c" using tree(2,3) by (cases t) auto
  have el: "\<forall>r. r \<noteq> p \<longrightarrow> children (elems s1 r) = children (elems s r)"
    "\<forall>r. id_e (elems s1 r) = id_e (elems s r)"
    "\<forall>r. kind (elems s1 r) = kind (elems s r)"
    "\<forall>r. r \<noteq> c \<longrightarrow> parent (elems s1 r) = parent (elems s r)"
    "children (elems s1 p) = Some (placed pos c cs)"
    "parent (elems s1 c) = Some p"
    "id2element s1 = id2element s"
    by (simp_all add: s1_def set_parent_def set_children_def)
  have "index_e n p s1 = Returns i s1" using idx detached el(3,4) by (rule index_e_frame)
  then have a: "add n p c pos s = index_add n i c s1"
    using add_attach [OF kids pos] by (simp add: attach_def s1_def)
  have "\<forall>r \<in> set (nodes t). children (elems s1 r) = children (elems s r)"
    using tree(3) el(1) by auto
  then have sh: "shaped (elems s1) t"
    using tree(1) shaped_cong [of t "elems s1" "elems s"] by simp
  have i1: "ids_of s1 rs = ids_of s rs" for rs using el(2) by (simp add: ids_of_def)
  have ne: "\<forall>r \<in> set (nodes t). id_e (elems s1 r) \<noteq> []" using ids el(2) by simp
  have du: "\<not> (distinct (ids_of s1 (nodes t))
                \<and> set (ids_of s1 (nodes t)) \<inter> dom (id2element s1 i) = {})"
    using dup by (simp add: i1 el(7))
  from index_add_stale_tree [OF sh ne fuel du]
  obtain pre d post where h: "nodes t = pre @ d # post"
    "index_add n i (node t) s1 = Throws DuplicateIdentifier (fold (register i) pre s1)"
    "id2element s1 i \<subseteq>\<^sub>m id2element (fold (register i) pre s1) i" by blast
  define s' where "s' = (if contains i c s then s1 else fold (register i) pre s1)"
  have c1: "contains i c s1 = contains i c s" using el(2,7) by (simp add: contains_def)
  obtain m where m: "n = Suc m" using fuel by (cases t; cases n) auto
  have idc: "id_e (elems s1 c) \<noteq> []" using ne tree(2) by (cases t) auto
  have thr: "add n p c pos s = Throws DuplicateIdentifier s'"
  proof (cases "contains i c s")
    case True
    then have "index_add (Suc m) i c s1 = Throws DuplicateIdentifier s1"
      using c1 idc by (intro index_add_contained) simp_all
    then show ?thesis using a True by (simp add: m s'_def del: index_add.simps)
  next
    case False
    then show ?thesis using a h(2) tree(2) by (simp add: s'_def)
  qed
  have fr: "elems (fold (register i) pre s1) = elems s1"
    using fold_register_frame [of i pre s1] by simp
  have "children (elems s' p) = Some (placed pos c cs)" "parent (elems s' c) = Some p"
    using el(5,6) fr by (simp_all add: s'_def)
  moreover have "id2element s i \<subseteq>\<^sub>m id2element s' i"
    using h(3) el(7) by (simp add: s'_def)
  moreover have "contains i c s \<longrightarrow> id2element s' = id2element s"
    using el(7) by (simp add: s'_def)
  moreover have "c \<in> set (placed pos c cs)"
    by (cases pos) (simp_all add: placed_def splice_in_def)
  ultimately show ?thesis using thr by blast
qed

subsection \<open>Position arguments of add and move\<close>

lemma index_add_fails_with:
  "fails_with (index_add n this e s) x \<Longrightarrow> x = DuplicateIdentifier"
  using index_add_settled(1) [of this s n e]
  by (cases "index_add n this e s") (auto simp: settled_def fails_with_def)

lemma attach_fails_with:
  assumes "fails_with (attach n p c s) x"
  shows "x = DuplicateIdentifier \<or> x = DetachedElement"
proof -
  define s1 where "s1 = set_parent c (Some p) s"
  from index_e_outcome [of n p s1]
  consider "index_e n p s1 = Hangs" | "index_e n p s1 = Throws DetachedElement s1"
    | i where "index_e n p s1 = Returns i s1" by blast
  then show ?thesis
  proof cases
    case 1
    then show ?thesis using assms by (simp add: attach_def fails_with_def s1_def)
  next
    case 2
    then show ?thesis using assms by (simp add: attach_def fails_with_def s1_def)
  next
    case 3
    then have "fails_with (index_add n i c s1) x" using assms by (simp add: attach_def s1_def)
    then show ?thesis by (simp add: index_add_fails_with)
  qed
qed

lemma indexOf_range: "- 1 \<le> indexOf cs c \<and> indexOf cs c < int (length cs)"
  by (induction cs) (auto simp: Let_def)

lemma indexOf_absent: "(indexOf cs c = - 1) = (c \<notin> set cs)"
proof (induction cs)
  case (Cons a cs)
  have "- 1 \<le> indexOf cs c" using indexOf_range [of cs c] by simp
  then show ?case using Cons.IH by (auto simp: Let_def)
qed simp

lemma indexOf_nth: "c \<in> set cs \<Longrightarrow> cs ! nat (indexOf cs c) = c"
proof (induction cs)
  case (Cons a cs)
  show ?case
  proof (cases "a = c")
    case False
    then have "c \<in> set cs" using Cons.prems by simp
    then have "0 \<le> indexOf cs c" "cs ! nat (indexOf cs c) = c"
      using indexOf_absent [of cs c] indexOf_range [of cs c] Cons.IH by auto
    then show ?thesis using False by (simp add: Let_def nat_add_distrib)
  qed simp
qed simp

text \<open>
  Claim C7. For a parent \<open>p\<close> with the children \<open>cs\<close>: \<^verbatim>\<open>p.add(c, i)\<close> throws
  \<open>IndexOutOfBounds\<close> exactly when \<open>i < 0\<close> or \<open>i > length cs\<close>, and never when the position
  is omitted; \<^verbatim>\<open>p.move(c, k)\<close> throws \<open>ChildNotFound\<close> exactly when \<open>c\<close> is not among
  \<open>cs\<close>, and otherwise \<open>IndexOutOfBounds\<close> exactly when \<open>k < 0\<close> or \<open>k > length cs - 1\<close>.
\<close>

theorem position_errors:
  assumes "children (elems s p) = Some cs"
  shows "(fails_with (add n p c (Some i) s) IndexOutOfBounds \<longleftrightarrow> (i < 0 \<or> i > int (length cs)))
    \<and> \<not> fails_with (add n p c None s) IndexOutOfBounds
    \<and> (fails_with (move p c k s) ChildNotFound \<longleftrightarrow> c \<notin> set cs)
    \<and> (c \<in> set cs \<longrightarrow>
         (fails_with (move p c k s) IndexOutOfBounds \<longleftrightarrow> (k < 0 \<or> k > int (length cs) - 1)))"
proof -
  have a: "\<not> fails_with (attach n p c s0) IndexOutOfBounds" for s0
    using attach_fails_with [of n p c s0 IndexOutOfBounds] by auto
  have "fails_with (add n p c (Some i) s) IndexOutOfBounds \<longleftrightarrow> (i < 0 \<or> i > int (length cs))"
    using assms a by (auto simp: add_def) (simp_all add: fails_with_def)
  moreover have "\<not> fails_with (add n p c None s) IndexOutOfBounds"
    using assms a by (simp add: add_def)
  moreover have "fails_with (move p c k s) ChildNotFound \<longleftrightarrow> c \<notin> set cs"
    using assms indexOf_absent [of cs c] by (auto simp: move_def fails_with_def Let_def)
  moreover have "c \<in> set cs \<longrightarrow>
         (fails_with (move p c k s) IndexOutOfBounds \<longleftrightarrow> (k < 0 \<or> k > int (length cs) - 1))"
    using assms indexOf_absent [of cs c] by (auto simp: move_def fails_with_def Let_def)
  ultimately show ?thesis by blast
qed

lemma splice_out_in:
  assumes "i < length cs" and "k \<le> length cs - 1"
  shows "mset (splice_in k (cs ! i) (splice_out i cs)) = mset cs"
    and "splice_in i (cs ! i) (splice_out i cs) = cs"
proof -
  have cs: "cs = take i cs @ cs ! i # drop (Suc i) cs" using assms(1) by (rule id_take_nth_drop)
  have "mset (splice_in k (cs ! i) (splice_out i cs)) = add_mset (cs ! i) (mset (splice_out i cs))"
    unfolding splice_in_def
    by (metis append_take_drop_id mset.simps(2) mset_append union_mset_add_mset_right)
  also have "\<dots> = mset (take i cs @ cs ! i # drop (Suc i) cs)" by (simp add: splice_out_def)
  finally show "mset (splice_in k (cs ! i) (splice_out i cs)) = mset cs" using cs by simp
  have "take i (splice_out i cs) = take i cs" "drop i (splice_out i cs) = drop (Suc i) cs"
    using assms(1) by (simp_all add: splice_out_def min_def)
  then show "splice_in i (cs ! i) (splice_out i cs) = cs" using cs by (simp add: splice_in_def)
qed

text \<open>
  Claim C8. For a parent \<open>p\<close> with the children \<open>cs\<close>, a child \<open>c\<close> among them and a
  position \<open>0 \<le> k \<le> length cs - 1\<close>, \<^verbatim>\<open>p.move(c, k)\<close> returns, and the state differs
  from the one before in the \<^verbatim>\<open>children\<close> array of \<open>p\<close> only: the new array holds the
  same elements as often as before, no parent reference and no other element changes,
  and no index changes. Moving \<open>c\<close> to the position \<^verbatim>\<open>indexOf\<close> finds it at leaves the
  array as it was.
\<close>

theorem move_reorders_only:
  assumes "children (elems s p) = Some cs" and "c \<in> set cs"
    and "0 \<le> k" and "k \<le> int (length cs) - 1"
  shows "\<exists>cs'. move p c k s = Returns () (set_children p cs' s)
      \<and> mset cs' = mset cs
      \<and> set cs' = set cs
      \<and> (k = indexOf cs c \<longrightarrow> cs' = cs)
      \<and> (distinct cs \<and> cs ! nat k = c \<longrightarrow> cs' = cs)
      \<and> (\<forall>r. parent (elems (set_children p cs' s) r) = parent (elems s r))
      \<and> (\<forall>r. r \<noteq> p \<longrightarrow> elems (set_children p cs' s) r = elems s r)
      \<and> id2element (set_children p cs' s) = id2element s"
proof -
  define i where "i = nat (indexOf cs c)"
  define cs' where "cs' = splice_in (nat k) c (splice_out i cs)"
  have present: "indexOf cs c \<noteq> - 1" using assms(2) by (simp add: indexOf_absent)
  then have i: "i < length cs" "int i = indexOf cs c" using indexOf_range [of cs c]
    by (auto simp: i_def)
  have ci: "cs ! i = c" using assms(2) by (simp add: i_def indexOf_nth)
  have "move p c k s = Returns () (set_children p cs' s)"
    using assms present by (simp add: move_def Let_def cs'_def i_def)
  moreover have m: "mset cs' = mset cs"
    using splice_out_in(1) [of i cs "nat k"] i(1) assms(3,4) ci by (simp add: cs'_def)
  moreover have "set cs' = set cs" using m by (rule mset_eq_setD)
  moreover have same: "k = indexOf cs c \<longrightarrow> cs' = cs"
  proof
    assume "k = indexOf cs c"
    then have "nat k = i" by (simp add: i_def)
    then show "cs' = cs" using splice_out_in(2) [of i cs 0] i(1) ci by (simp add: cs'_def)
  qed
  moreover have "distinct cs \<and> cs ! nat k = c \<longrightarrow> cs' = cs"
  proof
    assume d: "distinct cs \<and> cs ! nat k = c"
    have kl: "nat k < length cs" using assms(2,3,4) by (cases cs) auto
    have dc: "distinct cs" using d by simp
    have "cs ! nat k = cs ! i" using d ci by simp
    then have "nat k = i" using nth_eq_iff_index_eq [OF dc kl i(1)] by simp
    then have "k = indexOf cs c" using assms(3) i(2) by simp
    then show "cs' = cs" using same by simp
  qed
  moreover have "\<forall>r. parent (elems (set_children p cs' s) r) = parent (elems s r)"
    "\<forall>r. r \<noteq> p \<longrightarrow> elems (set_children p cs' s) r = elems s r"
    "id2element (set_children p cs' s) = id2element s"
    by (simp_all add: set_children_def)
  ultimately show ?thesis by blast
qed

subsection \<open>Generated ids and duplicate detection\<close>

lemma index_add_returns:
  assumes "index_add n this e s = Returns u s'"
  shows "\<exists>s1. extends this s s1 \<and> id2element s1 = id2element s
      \<and> id2element s this (id_e (elems s1 e)) = None
      \<and> (id_e (elems s e) \<noteq> [] \<longrightarrow> s1 = s)
      \<and> (id_e (elems s e) = [] \<longrightarrow> unit_random s \<longrightarrow>
            length (id_e (elems s1 e)) = 8 \<and> set (id_e (elems s1 e)) \<subseteq> set ID_CHARS)
      \<and> extends this (register this e s1) s'"
proof -
  obtain m where n: "n = Suc m" using assms by (cases n) auto
  define pre where "pre = (if id_e (elems s e) = [] then fresh_id_loop m this e s
                  else if contains this e s then Throws DuplicateIdentifier s
                  else Returns () s)"
  have unf: "index_add (Suc m) this e s =
     (case pre of
        Returns u s1 \<Rightarrow>
          (let s2 = register this e s1
           in case children (elems s2 e) of
                None \<Rightarrow> Returns () s2
              | Some cs \<Rightarrow> index_add_each m this cs s2)
      | Throws x s1 \<Rightarrow> Throws x s1
      | Hangs \<Rightarrow> Hangs)" by (simp add: pre_def)
  from id_phase [of s e m this, folded pre_def] assms [unfolded n unf]
  obtain s1 where h: "pre = Returns () s1" "extends this s s1" "id2element s1 = id2element s"
      "id2element s this (id_e (elems s1 e)) = None"
      "id_e (elems s e) \<noteq> [] \<longrightarrow> s1 = s"
      "id_e (elems s e) = [] \<longrightarrow> unit_random s \<longrightarrow>
            length (id_e (elems s1 e)) = 8 \<and> set (id_e (elems s1 e)) \<subseteq> set ID_CHARS"
    by auto
  have "extends this (register this e s1) s'"
  proof (cases "children (elems (register this e s1) e)")
    case None
    then show ?thesis using assms h(1) by (simp add: n unf extends_refl del: index_add.simps)
  next
    case (Some cs)
    then have "index_add_each m this cs (register this e s1) = Returns u s'"
      using assms h(1) by (simp add: n unf del: index_add.simps)
    then show ?thesis using index_add_settled(2) [of this "register this e s1" m cs]
      by (simp add: settled_def)
  qed
  then show ?thesis using h by blast
qed

lemma index_add_registers:
  assumes "index_add n this e s = Returns u s'"
    and "id_e (elems s e) = [] \<longrightarrow> unit_random s"
  shows "id_e (elems s' e) \<noteq> []
      \<and> id2element s' this (id_e (elems s' e)) = Some e
      \<and> id2element s this (id_e (elems s' e)) = None
      \<and> (id_e (elems s e) \<noteq> [] \<longrightarrow> id_e (elems s' e) = id_e (elems s e))
      \<and> (id_e (elems s e) = [] \<longrightarrow>
            length (id_e (elems s' e)) = 8 \<and> set (id_e (elems s' e)) \<subseteq> set ID_CHARS)
      \<and> extends this s s'"
proof -
  from index_add_returns [OF assms(1)]
  obtain s1 where h: "extends this s s1" "id2element s1 = id2element s"
      "id2element s this (id_e (elems s1 e)) = None"
      "id_e (elems s e) \<noteq> [] \<longrightarrow> s1 = s"
      "id_e (elems s e) = [] \<longrightarrow> unit_random s \<longrightarrow>
            length (id_e (elems s1 e)) = 8 \<and> set (id_e (elems s1 e)) \<subseteq> set ID_CHARS"
      "extends this (register this e s1) s'" by blast
  have ne: "id_e (elems s1 e) \<noteq> []" using h(4,5) assms(2) by (cases "id_e (elems s e) = []") auto
  have keep: "id_e (elems s' e) = id_e (elems s1 e)"
    using h(6) ne by (simp add: extends_def)
  have "id2element (register this e s1) this (id_e (elems s1 e)) = Some e"
    by (simp add: register_def)
  then have "id2element s' this (id_e (elems s1 e)) = Some e"
    using h(6) by (auto simp: extends_def map_le_def dom_def)
  moreover have "extends this s s'"
    using h(1) extends_register [of this e s1] h(2,3) h(6)
    by (auto simp: contains_def intro: extends_trans)
  ultimately show ?thesis using h ne keep assms(2) by auto
qed

subsection \<open>Counting what one SModelIndex.add registers\<close>

lemma index_add_unfold_returns:
  assumes "index_add n this e s = Returns u s'"
  shows "\<exists>m s1. n = Suc m \<and> extends this s s1 \<and> id2element s1 = id2element s
      \<and> id2element s this (id_e (elems s1 e)) = None
      \<and> (case children (elems s e) of
            None \<Rightarrow> s' = register this e s1
          | Some cs \<Rightarrow> index_add_each m this cs (register this e s1) = Returns () s')"
proof -
  obtain m where n: "n = Suc m" using assms by (cases n) auto
  define pre where "pre = (if id_e (elems s e) = [] then fresh_id_loop m this e s
                  else if contains this e s then Throws DuplicateIdentifier s
                  else Returns () s)"
  have unf: "index_add (Suc m) this e s =
     (case pre of
        Returns u s1 \<Rightarrow>
          (let s2 = register this e s1
           in case children (elems s2 e) of
                None \<Rightarrow> Returns () s2
              | Some cs \<Rightarrow> index_add_each m this cs s2)
      | Throws x s1 \<Rightarrow> Throws x s1
      | Hangs \<Rightarrow> Hangs)" by (simp add: pre_def)
  from id_phase [of s e m this, folded pre_def] assms [unfolded n unf]
  obtain s1 where h: "pre = Returns () s1" "extends this s s1" "id2element s1 = id2element s"
      "id2element s this (id_e (elems s1 e)) = None"
    by auto
  have c: "children (elems (register this e s1) e) = children (elems s e)"
    using h(2) by (simp add: extends_def)
  have "case children (elems s e) of
            None \<Rightarrow> s' = register this e s1
          | Some cs \<Rightarrow> index_add_each m this cs (register this e s1) = Returns () s'"
    using assms h(1) c by (auto simp: n unf Let_def simp del: index_add.simps split: option.splits)
  then show ?thesis using n h by blast
qed

lemma shaped_extends: "extends this s s1 \<Longrightarrow> shaped (elems s1) t = shaped (elems s) t"
  by (rule shaped_cong) (simp add: extends_def)

lemma index_add_each_counts:
  assumes IH: "\<And>t n s u s'. t \<in> set ts \<Longrightarrow> shaped (elems s) t \<Longrightarrow>
      index_add n this (node t) s = Returns u s' \<Longrightarrow>
      \<exists>ks. length ks = length (nodes t) \<and> distinct ks
        \<and> set ks \<inter> dom (id2element s this) = {}
        \<and> dom (id2element s' this) = dom (id2element s this) \<union> set ks"
  shows "set us \<subseteq> set ts \<Longrightarrow> \<forall>t \<in> set us. shaped (elems s) t \<Longrightarrow>
      index_add_each n this (map node us) s = Returns u s' \<Longrightarrow>
      \<exists>ks. length ks = length (concat (map nodes us)) \<and> distinct ks
        \<and> set ks \<inter> dom (id2element s this) = {}
        \<and> dom (id2element s' this) = dom (id2element s this) \<union> set ks"
proof (induction us arbitrary: s)
  case Nil
  then show ?case by simp
next
  case (Cons a us)
  from Cons.prems(3) obtain v s1 where
    one: "index_add n this (node a) s = Returns v s1"
    and rest: "index_add_each n this (map node us) s1 = Returns u s'"
    by (auto split: outcome.splits)
  from IH [OF _ _ one] Cons.prems(1,2)
  obtain ks1 where k1: "length ks1 = length (nodes a)" "distinct ks1"
    "set ks1 \<inter> dom (id2element s this) = {}"
    "dom (id2element s1 this) = dom (id2element s this) \<union> set ks1" by auto
  have "extends this s s1" using index_add_settled(1) [of this s n "node a"] one
    by (simp add: settled_def)
  then have "\<forall>t \<in> set us. shaped (elems s1) t"
    using Cons.prems(2) by (simp add: shaped_extends)
  from Cons.IH [OF _ this rest] Cons.prems(1)
  obtain ks2 where k2: "length ks2 = length (concat (map nodes us))" "distinct ks2"
    "set ks2 \<inter> dom (id2element s1 this) = {}"
    "dom (id2element s' this) = dom (id2element s1 this) \<union> set ks2" by auto
  have "length (ks1 @ ks2) = length (concat (map nodes (a # us)))" using k1(1) k2(1) by simp
  moreover have "distinct (ks1 @ ks2)" using k1(2,4) k2(2,3) by auto
  moreover have "set (ks1 @ ks2) \<inter> dom (id2element s this) = {}" using k1(3,4) k2(3) by auto
  moreover have "dom (id2element s' this) = dom (id2element s this) \<union> set (ks1 @ ks2)"
    using k1(4) k2(4) by auto
  ultimately show ?case by blast
qed

lemma index_add_counts:
  "shaped (elems s) t \<Longrightarrow> index_add n this (node t) s = Returns u s' \<Longrightarrow>
     \<exists>ks. length ks = length (nodes t) \<and> distinct ks
       \<and> set ks \<inter> dom (id2element s this) = {}
       \<and> dom (id2element s' this) = dom (id2element s this) \<union> set ks"
proof (induction t arbitrary: n s u s')
  case (Node r ts)
  from index_add_unfold_returns [of n this r s u s'] Node.prems(2)
  obtain m s1 where h: "n = Suc m" "extends this s s1" "id2element s1 = id2element s"
    "id2element s this (id_e (elems s1 r)) = None"
    "case children (elems s r) of
        None \<Rightarrow> s' = register this r s1
      | Some cs \<Rightarrow> index_add_each m this cs (register this r s1) = Returns () s'"
    by auto
  define k where "k = id_e (elems s1 r)"
  define s2 where "s2 = register this r s1"
  have d2: "dom (id2element s2 this) = insert k (dom (id2element s this))"
    by (simp add: s2_def k_def h(3))
  have kn: "k \<notin> dom (id2element s this)" using h(4) by (auto simp: k_def)
  have sh2: "\<forall>t \<in> set ts. shaped (elems s2) t"
    using Node.prems(1) h(2) shaped_extends [of this s s1] by (simp add: s2_def)
  show ?case
  proof (cases "children (elems s r)")
    case None
    then have "ts = []" "s' = s2" using Node.prems(1) h(5) by (simp_all add: s2_def)
    then show ?thesis using d2 kn by (intro exI [of _ "[k]"]) auto
  next
    case (Some cs)
    then have "index_add_each m this (map node ts) s2 = Returns () s'"
      using Node.prems(1) h(5) by (simp add: s2_def)
    from index_add_each_counts [where ts = ts, OF _ _ sh2 this] Node.IH
    obtain ks where ks: "length ks = length (concat (map nodes ts))" "distinct ks"
      "set ks \<inter> dom (id2element s2 this) = {}"
      "dom (id2element s' this) = dom (id2element s2 this) \<union> set ks" by blast
    have "length (k # ks) = length (nodes (Node r ts))" using ks(1) by simp
    moreover have "distinct (k # ks)" using ks(2,3) d2 by auto
    moreover have "set (k # ks) \<inter> dom (id2element s this) = {}" using ks(3) d2 kn by auto
    moreover have "dom (id2element s' this) = dom (id2element s this) \<union> set (k # ks)"
      using ks(4) d2 by auto
    ultimately show ?thesis by blast
  qed
qed

text \<open>
  Claim C2, as the code has it. Let \<open>t\<close> be a pre-built subtree of \<open>N = length (nodes t)\<close>
  elements, passed to one \<^verbatim>\<open>index.add\<close> call. When the ids of the subtree are all set and
  the fuel covers its depth: if the \<open>N\<close> ids are pairwise distinct and none is
  registered, the call returns and exactly these \<open>N\<close> ids become registered; otherwise
  the call throws \<open>DuplicateIdentifier\<close> at the first element \<open>d\<close>, in the order of the
  visit, whose id is taken (by the index or by an element visited before): the elements
  \<open>pre\<close> visited before it have fresh ids and all stay registered, each under its own id,
  the ancestors of \<open>d\<close> in a subtree without sharing are among them, and every entry from
  before the call is still there; when the root of the subtree is the
  element that collides, the state is exactly the one from before the call. And
  whatever the ids are, set or still to be generated: whenever the call returns, exactly
  \<open>N\<close> ids have become registered and every entry from before the call is kept.
\<close>

theorem index_add_subtree:
  assumes "shaped (elems s) t"
  shows "((\<forall>r \<in> set (nodes t). id_e (elems s r) \<noteq> []) \<and> length (nodes t) \<le> n \<longrightarrow>
          (distinct (ids_of s (nodes t))
             \<and> set (ids_of s (nodes t)) \<inter> dom (id2element s this) = {}
           \<longrightarrow> index_add n this (node t) s = Returns () (fold (register this) (nodes t) s)
             \<and> dom (id2element (fold (register this) (nodes t) s) this)
                 = dom (id2element s this) \<union> set (ids_of s (nodes t))
             \<and> card (dom (id2element (fold (register this) (nodes t) s) this)
                      - dom (id2element s this)) = length (nodes t))
        \<and> (\<not> (distinct (ids_of s (nodes t))
                \<and> set (ids_of s (nodes t)) \<inter> dom (id2element s this) = {})
           \<longrightarrow> (\<exists>pre d post. nodes t = pre @ d # post
                 \<and> distinct (ids_of s pre)
                 \<and> set (ids_of s pre) \<inter> dom (id2element s this) = {}
                 \<and> id_e (elems s d) \<in> dom (id2element s this) \<union> set (ids_of s pre)
                 \<and> index_add n this (node t) s
                     = Throws DuplicateIdentifier (fold (register this) pre s)
                 \<and> id2element s this \<subseteq>\<^sub>m id2element (fold (register this) pre s) this
                 \<and> dom (id2element (fold (register this) pre s) this)
                     = dom (id2element s this) \<union> set (ids_of s pre)
                 \<and> (\<forall>e \<in> set pre.
                       id2element (fold (register this) pre s) this (id_e (elems s e)) = Some e)
                 \<and> (distinct (nodes t) \<longrightarrow> set (above t d) \<subseteq> set pre)))
        \<and> (contains this (node t) s
           \<longrightarrow> index_add n this (node t) s = Throws DuplicateIdentifier s))
       \<and> (\<forall>u s'. index_add n this (node t) s = Returns u s' \<longrightarrow>
             card (dom (id2element s' this) - dom (id2element s this)) = length (nodes t)
             \<and> id2element s this \<subseteq>\<^sub>m id2element s' this)"
proof (rule conjI)
  show "(\<forall>r \<in> set (nodes t). id_e (elems s r) \<noteq> []) \<and> length (nodes t) \<le> n \<longrightarrow>
          (distinct (ids_of s (nodes t))
             \<and> set (ids_of s (nodes t)) \<inter> dom (id2element s this) = {}
           \<longrightarrow> index_add n this (node t) s = Returns () (fold (register this) (nodes t) s)
             \<and> dom (id2element (fold (register this) (nodes t) s) this)
                 = dom (id2element s this) \<union> set (ids_of s (nodes t))
             \<and> card (dom (id2element (fold (register this) (nodes t) s) this)
                      - dom (id2element s this)) = length (nodes t))
        \<and> (\<not> (distinct (ids_of s (nodes t))
                \<and> set (ids_of s (nodes t)) \<inter> dom (id2element s this) = {})
           \<longrightarrow> (\<exists>pre d post. nodes t = pre @ d # post
                 \<and> distinct (ids_of s pre)
                 \<and> set (ids_of s pre) \<inter> dom (id2element s this) = {}
                 \<and> id_e (elems s d) \<in> dom (id2element s this) \<union> set (ids_of s pre)
                 \<and> index_add n this (node t) s
                     = Throws DuplicateIdentifier (fold (register this) pre s)
                 \<and> id2element s this \<subseteq>\<^sub>m id2element (fold (register this) pre s) this
                 \<and> dom (id2element (fold (register this) pre s) this)
                     = dom (id2element s this) \<union> set (ids_of s pre)
                 \<and> (\<forall>e \<in> set pre.
                       id2element (fold (register this) pre s) this (id_e (elems s e)) = Some e)
                 \<and> (distinct (nodes t) \<longrightarrow> set (above t d) \<subseteq> set pre)))
        \<and> (contains this (node t) s
           \<longrightarrow> index_add n this (node t) s = Throws DuplicateIdentifier s)"
  proof (rule impI)
    assume h: "(\<forall>r \<in> set (nodes t). id_e (elems s r) \<noteq> []) \<and> length (nodes t) \<le> n"
    then have ids: "\<forall>r \<in> set (nodes t). id_e (elems s r) \<noteq> []"
      and fuel: "length (nodes t) \<le> n" by simp_all
    show "(distinct (ids_of s (nodes t))
             \<and> set (ids_of s (nodes t)) \<inter> dom (id2element s this) = {}
           \<longrightarrow> index_add n this (node t) s = Returns () (fold (register this) (nodes t) s)
             \<and> dom (id2element (fold (register this) (nodes t) s) this)
                 = dom (id2element s this) \<union> set (ids_of s (nodes t))
             \<and> card (dom (id2element (fold (register this) (nodes t) s) this)
                      - dom (id2element s this)) = length (nodes t))
        \<and> (\<not> (distinct (ids_of s (nodes t))
                \<and> set (ids_of s (nodes t)) \<inter> dom (id2element s this) = {})
           \<longrightarrow> (\<exists>pre d post. nodes t = pre @ d # post
                 \<and> distinct (ids_of s pre)
                 \<and> set (ids_of s pre) \<inter> dom (id2element s this) = {}
                 \<and> id_e (elems s d) \<in> dom (id2element s this) \<union> set (ids_of s pre)
                 \<and> index_add n this (node t) s
                     = Throws DuplicateIdentifier (fold (register this) pre s)
                 \<and> id2element s this \<subseteq>\<^sub>m id2element (fold (register this) pre s) this
                 \<and> dom (id2element (fold (register this) pre s) this)
                     = dom (id2element s this) \<union> set (ids_of s pre)
                 \<and> (\<forall>e \<in> set pre.
                       id2element (fold (register this) pre s) this (id_e (elems s e)) = Some e)
                 \<and> (distinct (nodes t) \<longrightarrow> set (above t d) \<subseteq> set pre)))
        \<and> (contains this (node t) s
           \<longrightarrow> index_add n this (node t) s = Throws DuplicateIdentifier s)"
    proof (intro conjI impI)
      assume f: "distinct (ids_of s (nodes t))
        \<and> set (ids_of s (nodes t)) \<inter> dom (id2element s this) = {}"
      then show "index_add n this (node t) s = Returns () (fold (register this) (nodes t) s)"
        using assms ids fuel by (intro index_add_fresh_tree) simp_all
      show "dom (id2element (fold (register this) (nodes t) s) this)
          = dom (id2element s this) \<union> set (ids_of s (nodes t))"
        by (rule dom_fold_register)
      show "card (dom (id2element (fold (register this) (nodes t) s) this)
          - dom (id2element s this)) = length (nodes t)"
        using f card_new_ids [of "ids_of s (nodes t)" "dom (id2element s this)"]
        by (simp add: dom_fold_register)
    next
      assume "\<not> (distinct (ids_of s (nodes t))
                \<and> set (ids_of s (nodes t)) \<inter> dom (id2element s this) = {})"
      with assms ids fuel show "\<exists>pre d post. nodes t = pre @ d # post
          \<and> distinct (ids_of s pre)
          \<and> set (ids_of s pre) \<inter> dom (id2element s this) = {}
          \<and> id_e (elems s d) \<in> dom (id2element s this) \<union> set (ids_of s pre)
          \<and> index_add n this (node t) s = Throws DuplicateIdentifier (fold (register this) pre s)
          \<and> id2element s this \<subseteq>\<^sub>m id2element (fold (register this) pre s) this
          \<and> dom (id2element (fold (register this) pre s) this)
              = dom (id2element s this) \<union> set (ids_of s pre)
          \<and> (\<forall>e \<in> set pre.
                id2element (fold (register this) pre s) this (id_e (elems s e)) = Some e)
          \<and> (distinct (nodes t) \<longrightarrow> set (above t d) \<subseteq> set pre)"
        by (rule index_add_first_taken)
    next
      assume c: "contains this (node t) s"
      obtain m where "n = Suc m" using fuel by (cases t; cases n) auto
      moreover have "id_e (elems s (node t)) \<noteq> []" using ids by (cases t) simp
      ultimately show "index_add n this (node t) s = Throws DuplicateIdentifier s"
        using c by simp
    qed
  qed
next
  show "\<forall>u s'. index_add n this (node t) s = Returns u s' \<longrightarrow>
             card (dom (id2element s' this) - dom (id2element s this)) = length (nodes t)
             \<and> id2element s this \<subseteq>\<^sub>m id2element s' this"
  proof (intro allI impI)
    fix u s'
    assume r: "index_add n this (node t) s = Returns u s'"
    from index_add_counts [OF assms r]
    obtain ks where ks: "length ks = length (nodes t)" "distinct ks"
      "set ks \<inter> dom (id2element s this) = {}"
      "dom (id2element s' this) = dom (id2element s this) \<union> set ks" by blast
    have "card (dom (id2element s' this) - dom (id2element s this)) = length ks"
      using card_new_ids [OF ks(2,3)] by (simp add: ks(4))
    moreover have "id2element s this \<subseteq>\<^sub>m id2element s' this"
      using index_add_settled(1) [of this s n "node t"] r by (simp add: settled_def extends_def)
    ultimately show "card (dom (id2element s' this) - dom (id2element s this)) = length (nodes t)
        \<and> id2element s this \<subseteq>\<^sub>m id2element s' this"
      using ks(1) by simp
  qed
qed


text \<open>
  Claim C10. The index compares ids, never references. If \<open>e\<close> has a set id under which
  it is registered, \<^verbatim>\<open>index.add(e)\<close> throws \<open>DuplicateIdentifier\<close> and changes nothing; so
  does a second \<^verbatim>\<open>index.add(e)\<close> right after a first that returned. And \<^verbatim>\<open>contains(e')\<close>
  is true of every element \<open>e'\<close> that carries the id of a registered element.
\<close>

theorem duplicates_by_id_only:
  "(id_e (elems s e) \<noteq> [] \<and> id2element s this (id_e (elems s e)) = Some e
      \<longrightarrow> index_add (Suc n) this e s = Throws DuplicateIdentifier s)
   \<and> (id_e (elems s0 e) \<noteq> [] \<and> index_add m this e s0 = Returns u s
      \<longrightarrow> id2element s this (id_e (elems s e)) = Some e
        \<and> index_add (Suc n) this e s = Throws DuplicateIdentifier s)
   \<and> (id2element s this (id_e (elems s e)) = Some e \<and> id_e (elems s e') = id_e (elems s e)
      \<longrightarrow> contains this e' s)"
proof (intro conjI impI)
  assume "id_e (elems s e) \<noteq> [] \<and> id2element s this (id_e (elems s e)) = Some e"
  then show "index_add (Suc n) this e s = Throws DuplicateIdentifier s"
    by (simp add: contains_def)
next
  assume a: "id_e (elems s0 e) \<noteq> [] \<and> index_add m this e s0 = Returns u s"
  then have r: "id_e (elems s e) \<noteq> []" "id2element s this (id_e (elems s e)) = Some e"
    using index_add_registers [of m this e s0 u s] by auto
  then show "id2element s this (id_e (elems s e)) = Some e" by simp
  from r show "index_add (Suc n) this e s = Throws DuplicateIdentifier s"
    by (simp add: contains_def)
next
  assume "id2element s this (id_e (elems s e)) = Some e \<and> id_e (elems s e') = id_e (elems s e)"
  then show "contains this e' s" by (simp add: contains_def)
qed

subsection \<open>The update scheduler\<close>

lemmas sched_defs = isCacheEmpty_def scheduleUpdate_def update_def updateHidden_def
  updatePopup_def delegate_def flushHidden_def flushModel_def flushPopup_def callback_def
  endOfFrame_def quiet_def pending_calls_def

lemma callback_quiet:
  "callback quiet c = Completed (c\<lparr>cachedModelRoot := None, cachedHiddenModelRoot := None,
     cachedPopup := None, delegated := delegated c @ pending_calls c\<rparr>)"
  by (cases "cachedHiddenModelRoot c"; cases "cachedModelRoot c"; cases "cachedPopup c")
     (simp_all add: sched_defs)

text \<open>
  Claim C5. With a delegate that does not raise, the callback returns; the delegate has
  then received, after the calls it had received before, \<^verbatim>\<open>updateHidden\<close> with the hidden
  snapshot, \<^verbatim>\<open>update\<close> with the primary one and \<^verbatim>\<open>updatePopup\<close> with the popup one, in
  this order, one call for each filled slot and none for an empty one, and all three
  slots are empty.
\<close>

theorem flush_delivers_hidden_primary_popup:
  "callback quiet c = Completed (c\<lparr>cachedModelRoot := None, cachedHiddenModelRoot := None,
     cachedPopup := None, delegated := delegated c @ pending_calls c\<rparr>)
   \<and> isCacheEmpty (cache_of (callback quiet c))
   \<and> pending_calls c =
       map UpdateHidden (slot (cachedHiddenModelRoot c)) @
       map Update (slot (cachedModelRoot c)) @
       map UpdatePopup (slot (cachedPopup c))"
  by (simp add: callback_quiet) (simp add: isCacheEmpty_def pending_calls_def)

lemma armed_inv_event: "armed_inv c \<Longrightarrow> armed_inv (run_event e c)"
proof (cases e)
  case Frame
  assume "armed_inv c"
  then show ?thesis using Frame
    by (cases "endTasks c") (auto simp: armed_inv_def endOfFrame_def callback_quiet isCacheEmpty_def split: if_splits)
qed (auto simp: armed_inv_def sched_defs Let_def)

lemma armed_inv_events: "armed_inv c \<Longrightarrow> armed_inv (run_events es c)"
  by (induction es arbitrary: c) (simp_all add: armed_inv_event)

text \<open>
  Claim C4. Each of \<^verbatim>\<open>update\<close>, \<^verbatim>\<open>updateHidden\<close> and \<^verbatim>\<open>updatePopup\<close> queues one callback
  when all three slots were empty before the call, and none otherwise. Hence, from a
  cache with empty slots and nothing queued, after any sequence of such calls and of
  frames (with a delegate that does not raise) one callback is queued if a slot is
  filled and none if all are empty: never more than one.
\<close>

theorem arms_iff_cache_empty:
  "endTasks (update m c) = (if isCacheEmpty c then Suc (endTasks c) else endTasks c)
   \<and> endTasks (updateHidden m c) = (if isCacheEmpty c then Suc (endTasks c) else endTasks c)
   \<and> endTasks (updatePopup m c) = (if isCacheEmpty c then Suc (endTasks c) else endTasks c)
   \<and> (isCacheEmpty c \<and> endTasks c = 0 \<longrightarrow>
        endTasks (run_events es c) = (if isCacheEmpty (run_events es c) then 0 else 1)
        \<and> endTasks (run_events es c) \<le> 1)"
proof -
  have "isCacheEmpty c \<and> endTasks c = 0 \<Longrightarrow> armed_inv (run_events es c)"
    by (rule armed_inv_events) (simp add: armed_inv_def)
  then show ?thesis
    by (auto simp: armed_inv_def update_def updateHidden_def updatePopup_def scheduleUpdate_def Let_def)
qed

text \<open>
  The theorem at a new cache: four calls in a row queue one callback, and a frame
  after the last call leaves none.
\<close>

theorem arms_iff_cache_empty_witness:
  "isCacheEmpty (new_cache :: nat ViewerCache) \<and> endTasks (new_cache :: nat ViewerCache) = 0
   \<and> endTasks (run_events [DoUpdate 1, DoUpdateHidden 2, DoUpdatePopup 3, DoUpdate 4] (new_cache :: nat ViewerCache)) = 1
   \<and> endTasks (run_events [DoUpdate 1, DoUpdateHidden 2, Frame, DoUpdatePopup 3, Frame] (new_cache :: nat ViewerCache)) = 0"
  using arms_iff_cache_empty [of 1 "new_cache :: nat ViewerCache" "[DoUpdate 1, DoUpdateHidden 2, DoUpdatePopup 3, DoUpdate 4]"]
    arms_iff_cache_empty [of 1 "new_cache :: nat ViewerCache" "[DoUpdate 1, DoUpdateHidden 2, Frame, DoUpdatePopup 3, Frame]"]
  by (simp add: new_cache_def sched_defs Let_def)

text \<open>
  Claim C6. From a cache with empty slots and nothing queued, \<^verbatim>\<open>update(A)\<close> followed by
  \<^verbatim>\<open>update(B)\<close> queues one callback; the frame that runs it hands the delegate
  \<^verbatim>\<open>update(B)\<close> and nothing else, so \<open>A\<close> is never delivered, and leaves the cache as it
  was but for this call; a further frame does nothing.
\<close>

theorem last_update_wins:
  assumes "isCacheEmpty c" and "endTasks c = 0"
  shows "endTasks (update B (update A c)) = 1
    \<and> endOfFrame quiet (update B (update A c)) = Completed (c\<lparr>delegated := delegated c @ [Update B]\<rparr>)
    \<and> endOfFrame quiet (c\<lparr>delegated := delegated c @ [Update B]\<rparr>)
         = Completed (c\<lparr>delegated := delegated c @ [Update B]\<rparr>)"
  using assms by (simp add: sched_defs Let_def)

text \<open>
The theorem at a new cache, with the snapshots 7 and 8.
\<close>

theorem last_update_wins_witness:
  "isCacheEmpty (new_cache :: nat ViewerCache) \<and> endTasks (new_cache :: nat ViewerCache) = 0
   \<and> delegated (cache_of (endOfFrame quiet (update 8 (update 7 (new_cache :: nat ViewerCache))))) = [Update 8]"
  using last_update_wins [of "new_cache :: nat ViewerCache" 8 7]
  by (simp add: new_cache_def isCacheEmpty_def)

text \<open>
  Claim C3 as stated fails. After \<^verbatim>\<open>updateHidden(1)\<close> and \<^verbatim>\<open>update(2)\<close> on a new cache, a
  frame in which \<^verbatim>\<open>updateHidden\<close> raises leaves both snapshots in their slots and
  nothing queued. No later \<^verbatim>\<open>update\<close>, \<^verbatim>\<open>updateHidden\<close> or \<^verbatim>\<open>updatePopup\<close> queues a callback
  then, and a later frame delivers nothing: the primary snapshot is stranded.
\<close>

theorem raising_delegate_strands_cache:
  "endOfFrame refuse_hidden (update 2 (updateHidden 1 new_cache)) = Raised stuck_cache
   \<and> cachedModelRoot stuck_cache = Some 2
   \<and> endTasks stuck_cache = 0
   \<and> endTasks (update 3 stuck_cache) = 0
   \<and> endTasks (updateHidden 4 (update 3 stuck_cache)) = 0
   \<and> endTasks (updatePopup 5 (updateHidden 4 (update 3 stuck_cache))) = 0
   \<and> endOfFrame quiet (update 3 stuck_cache) = Completed (update 3 stuck_cache)"
  by (simp add: new_cache_def stuck_cache_def refuse_hidden_def sched_defs Let_def)

lemma callback_hidden_raises:
  "cachedHiddenModelRoot c = Some h \<Longrightarrow> raises (UpdateHidden h) \<Longrightarrow>
     callback raises c = Raised (c\<lparr>delegated := delegated c @ [UpdateHidden h]\<rparr>)"
  by (simp add: callback_def flushHidden_def delegate_def)

lemma callback_update_raises:
  "\<forall>h. cachedHiddenModelRoot c = Some h \<longrightarrow> \<not> raises (UpdateHidden h) \<Longrightarrow>
   cachedModelRoot c = Some m \<Longrightarrow> raises (Update m) \<Longrightarrow>
     callback raises c = Raised (c\<lparr>cachedHiddenModelRoot := None,
       delegated := delegated c @ map UpdateHidden (slot (cachedHiddenModelRoot c)) @ [Update m]\<rparr>)"
  by (cases "cachedHiddenModelRoot c")
     (simp_all add: callback_def flushHidden_def flushModel_def delegate_def)

lemma callback_popup_raises:
  "\<forall>h. cachedHiddenModelRoot c = Some h \<longrightarrow> \<not> raises (UpdateHidden h) \<Longrightarrow>
   \<forall>m. cachedModelRoot c = Some m \<longrightarrow> \<not> raises (Update m) \<Longrightarrow>
   cachedPopup c = Some p \<Longrightarrow> raises (UpdatePopup p) \<Longrightarrow>
     callback raises c = Raised (c\<lparr>cachedHiddenModelRoot := None, cachedModelRoot := None,
       delegated := delegated c @ map UpdateHidden (slot (cachedHiddenModelRoot c))
         @ map Update (slot (cachedModelRoot c)) @ [UpdatePopup p]\<rparr>)"
  by (cases "cachedHiddenModelRoot c"; cases "cachedModelRoot c")
     (simp_all add: callback_def flushHidden_def flushModel_def flushPopup_def delegate_def)

lemma callback_none_raises:
  "\<forall>x \<in> set (pending_calls c). \<not> raises x \<Longrightarrow>
     callback raises c = Completed (c\<lparr>cachedModelRoot := None, cachedHiddenModelRoot := None,
       cachedPopup := None, delegated := delegated c @ pending_calls c\<rparr>)"
  by (cases "cachedHiddenModelRoot c"; cases "cachedModelRoot c"; cases "cachedPopup c")
     (simp_all add: sched_defs)

lemma callback_raised:
  assumes "callback raises c = Raised c'"
  shows "\<not> isCacheEmpty c'
    \<and> endTasks c' = endTasks c
    \<and> endTasks (update x c') = endTasks c'
    \<and> endTasks (updateHidden x c') = endTasks c'
    \<and> endTasks (updatePopup x c') = endTasks c'"
  using assms
  by (cases "cachedHiddenModelRoot c"; cases "cachedModelRoot c"; cases "cachedPopup c")
     (auto simp: sched_defs Let_def split: if_splits)

text \<open>
  Claim C3, as the code has it. The callback visits hidden, primary, popup; at the first
  filled slot whose delegate call raises, the exception leaves the callback at once:
  the slots of the channels delivered before are cleared, the slot of the channel that
  raised and the slots after it keep their snapshots, the delegate has received the
  calls up to the raising one, and no callback is queued in exchange. When no call
  raises, the callback completes with all slots cleared. After a callback that raised
  the cache is not empty, so a later \<^verbatim>\<open>update\<close>, \<^verbatim>\<open>updateHidden\<close> or \<^verbatim>\<open>updatePopup\<close> overwrites
  its slot and queues nothing.
\<close>

theorem raising_delegate_keeps_slots:
  "(cachedHiddenModelRoot c = Some h \<and> raises (UpdateHidden h)
      \<longrightarrow> callback raises c = Raised (c\<lparr>delegated := delegated c @ [UpdateHidden h]\<rparr>))
   \<and> ((\<forall>h. cachedHiddenModelRoot c = Some h \<longrightarrow> \<not> raises (UpdateHidden h))
        \<and> cachedModelRoot c = Some m \<and> raises (Update m)
      \<longrightarrow> callback raises c = Raised (c\<lparr>cachedHiddenModelRoot := None,
            delegated := delegated c @ map UpdateHidden (slot (cachedHiddenModelRoot c))
              @ [Update m]\<rparr>))
   \<and> ((\<forall>h. cachedHiddenModelRoot c = Some h \<longrightarrow> \<not> raises (UpdateHidden h))
        \<and> (\<forall>m. cachedModelRoot c = Some m \<longrightarrow> \<not> raises (Update m))
        \<and> cachedPopup c = Some p \<and> raises (UpdatePopup p)
      \<longrightarrow> callback raises c = Raised (c\<lparr>cachedHiddenModelRoot := None, cachedModelRoot := None,
            delegated := delegated c @ map UpdateHidden (slot (cachedHiddenModelRoot c))
              @ map Update (slot (cachedModelRoot c)) @ [UpdatePopup p]\<rparr>))
   \<and> ((\<forall>y \<in> set (pending_calls c). \<not> raises y)
      \<longrightarrow> callback raises c = Completed (c\<lparr>cachedModelRoot := None,
            cachedHiddenModelRoot := None, cachedPopup := None,
            delegated := delegated c @ pending_calls c\<rparr>))
   \<and> (\<forall>c'. callback raises c = Raised c'
      \<longrightarrow> \<not> isCacheEmpty c'
        \<and> endTasks c' = endTasks c
        \<and> endTasks (update x c') = endTasks c'
        \<and> endTasks (updateHidden x c') = endTasks c'
        \<and> endTasks (updatePopup x c') = endTasks c')"
proof (intro conjI impI allI)
  assume "cachedHiddenModelRoot c = Some h \<and> raises (UpdateHidden h)"
  then show "callback raises c = Raised (c\<lparr>delegated := delegated c @ [UpdateHidden h]\<rparr>)"
    by (simp add: callback_hidden_raises)
next
  assume "(\<forall>h. cachedHiddenModelRoot c = Some h \<longrightarrow> \<not> raises (UpdateHidden h))
        \<and> cachedModelRoot c = Some m \<and> raises (Update m)"
  then show "callback raises c = Raised (c\<lparr>cachedHiddenModelRoot := None,
            delegated := delegated c @ map UpdateHidden (slot (cachedHiddenModelRoot c))
              @ [Update m]\<rparr>)"
    by (intro callback_update_raises) simp_all
next
  assume "(\<forall>h. cachedHiddenModelRoot c = Some h \<longrightarrow> \<not> raises (UpdateHidden h))
        \<and> (\<forall>m. cachedModelRoot c = Some m \<longrightarrow> \<not> raises (Update m))
        \<and> cachedPopup c = Some p \<and> raises (UpdatePopup p)"
  then show "callback raises c = Raised (c\<lparr>cachedHiddenModelRoot := None, cachedModelRoot := None,
            delegated := delegated c @ map UpdateHidden (slot (cachedHiddenModelRoot c))
              @ map Update (slot (cachedModelRoot c)) @ [UpdatePopup p]\<rparr>)"
    by (intro callback_popup_raises) simp_all
next
  assume "\<forall>y \<in> set (pending_calls c). \<not> raises y"
  then show "callback raises c = Completed (c\<lparr>cachedModelRoot := None,
            cachedHiddenModelRoot := None, cachedPopup := None,
            delegated := delegated c @ pending_calls c\<rparr>)"
    by (rule callback_none_raises)
next
  fix c'
  assume r: "callback raises c = Raised c'"
  from callback_raised [OF r, of x]
  show "\<not> isCacheEmpty c'" "endTasks c' = endTasks c" "endTasks (update x c') = endTasks c'"
    "endTasks (updateHidden x c') = endTasks c'" "endTasks (updatePopup x c') = endTasks c'"
    by simp_all
qed

text \<open>
  The theorem at the cache of the counterexample, once with a delegate whose
  \<^verbatim>\<open>updateHidden\<close> raises and once with one whose \<^verbatim>\<open>update\<close> raises.
\<close>

theorem raising_delegate_keeps_slots_witness:
  "callback refuse_hidden (update 2 (updateHidden 1 new_cache)\<lparr>endTasks := 0\<rparr>) = Raised stuck_cache
   \<and> \<not> isCacheEmpty stuck_cache \<and> endTasks (update 9 stuck_cache) = 0
   \<and> callback refuse_update (update 2 (updateHidden 1 new_cache)\<lparr>endTasks := 0\<rparr>)
       = Raised \<lparr>cachedModelRoot = Some 2, cachedHiddenModelRoot = None, cachedPopup = None,
           endTasks = 0, delegated = [UpdateHidden 1, Update 2]\<rparr>"
proof -
  define c :: "nat ViewerCache" where "c = update 2 (updateHidden 1 new_cache)\<lparr>endTasks := 0\<rparr>"
  have c: "c = \<lparr>cachedModelRoot = Some 2, cachedHiddenModelRoot = Some 1, cachedPopup = None,
           endTasks = 0, delegated = []\<rparr>"
    by (simp add: c_def new_cache_def sched_defs Let_def)
  have a: "cachedHiddenModelRoot c = Some 1 \<and> refuse_hidden (UpdateHidden 1)"
    by (simp add: c refuse_hidden_def)
  have b: "(\<forall>h. cachedHiddenModelRoot c = Some h \<longrightarrow> \<not> refuse_update (UpdateHidden h))
        \<and> cachedModelRoot c = Some 2 \<and> refuse_update (Update 2)"
    by (simp add: c refuse_update_def)
  from raising_delegate_keeps_slots [of c 1 refuse_hidden 2 0 9] a
  have 1: "callback refuse_hidden c = Raised (c\<lparr>delegated := delegated c @ [UpdateHidden 1]\<rparr>)"
    and 2: "\<forall>c'. callback refuse_hidden c = Raised c' \<longrightarrow>
      \<not> isCacheEmpty c' \<and> endTasks (update 9 c') = endTasks c'"
    by blast+
  have s: "c\<lparr>delegated := delegated c @ [UpdateHidden 1]\<rparr> = stuck_cache"
    by (simp add: c stuck_cache_def)
  from 1 2 have 3: "callback refuse_hidden c = Raised stuck_cache"
    "\<not> isCacheEmpty stuck_cache" "endTasks (update 9 stuck_cache) = endTasks stuck_cache"
    unfolding s by blast+
  from raising_delegate_keeps_slots [of c 1 refuse_update 2 0 9] b
  have "callback refuse_update c = Raised (c\<lparr>cachedHiddenModelRoot := None,
            delegated := delegated c @ map UpdateHidden (slot (cachedHiddenModelRoot c))
              @ [Update 2]\<rparr>)" by blast
  then have 4: "callback refuse_update c
       = Raised \<lparr>cachedModelRoot = Some 2, cachedHiddenModelRoot = None, cachedPopup = None,
           endTasks = 0, delegated = [UpdateHidden 1, Update 2]\<rparr>"
    by (simp add: c)
  have "endTasks stuck_cache = 0" by (simp add: stuck_cache_def)
  with 3 4 show ?thesis unfolding c_def by simp
qed

subsection \<open>The concrete model\<close>

lemmas demo_defs = demo_def demo_elems_def blank_def

text \<open>
  Claim C1 as stated fails: adding element 3 to the root throws \<open>DuplicateIdentifier\<close>,
  and afterwards 3 is the third child of the root and the root is its parent, while
  before the call the root had the children 1 and 2 and element 3 had no parent.
\<close>

theorem add_duplicate_leaves_child_attached:
  "add 2 0 3 None demo
     = Throws DuplicateIdentifier (set_parent 3 (Some 0) (set_children 0 [1, 2, 3] demo))
   \<and> children (elems (set_parent 3 (Some 0) (set_children 0 [1, 2, 3] demo)) 0) = Some [1, 2, 3]
   \<and> parent (elems (set_parent 3 (Some 0) (set_children 0 [1, 2, 3] demo)) 3) = Some 0
   \<and> children (elems demo 0) = Some [1, 2]
   \<and> parent (elems demo 3) = None
   \<and> id2element demo 0 (id_e (elems demo 3)) = Some 1"
  by (simp add: demo_defs add_def attach_def index_e_def root_e_def set_parent_def
      set_children_def contains_def eval_nat_numeral)

text \<open>
  Claim C2 as stated fails: \<^verbatim>\<open>index.add\<close> of element 4 throws at its child 5, whose id b
  is registered, and the id c of element 4 itself, absent before the call, is
  registered after it.
\<close>

theorem index_add_keeps_ancestor_registered:
  "index_add 2 0 4 demo = Throws DuplicateIdentifier (register 0 4 demo)
   \<and> id2element demo 0 ''c'' = None
   \<and> id2element (register 0 4 demo) 0 ''c'' = Some 4
   \<and> id_e (elems demo 4) = ''c''
   \<and> children (elems demo 4) = Some [5]
   \<and> id2element demo 0 (id_e (elems demo 5)) = Some 2"
  by (simp add: demo_defs contains_def register_def eval_nat_numeral)

lemma demo_index: "index_e 2 0 demo = Returns 0 demo"
  by (simp add: demo_defs index_e_def root_e_def eval_nat_numeral)

text \<open>
  The theorem at the concrete model: element 3 repeats the id of element 1 and is
  added to the root.
\<close>

theorem add_duplicate_stays_attached_witness:
  "\<exists>s'. add 2 0 3 None demo = Throws DuplicateIdentifier s'
      \<and> children (elems s' 0) = Some [1, 2, 3]
      \<and> parent (elems s' 3) = Some 0
      \<and> id2element s' = id2element demo"
proof -
  have "children (elems demo 0) = Some [1, 2]" "parent (elems demo 3) = None"
    "shaped (elems demo) (Node 3 [])" "node (Node 3 []) = 3" "0 \<notin> set (nodes (Node 3 []))"
    "\<forall>r \<in> set (nodes (Node 3 [])). id_e (elems demo r) \<noteq> []"
    "length (nodes (Node 3 [])) \<le> 2"
    "\<not> (distinct (ids_of demo (nodes (Node 3 [])))
        \<and> set (ids_of demo (nodes (Node 3 []))) \<inter> dom (id2element demo 0) = {})"
    "contains 0 3 demo"
    by (simp_all add: demo_defs ids_of_def contains_def)
  from add_duplicate_stays_attached [OF this(1) _ this(2) demo_index this(3-8), of None] this(9)
  show ?thesis by (auto simp: placed_def)
qed

text \<open>
The theorem at the root of the concrete model, which has two children.
\<close>

theorem position_errors_witness:
  "children (elems demo 0) = Some [1, 2]
   \<and> fails_with (add 2 0 3 (Some 3) demo) IndexOutOfBounds
   \<and> fails_with (add 2 0 3 (Some (- 1)) demo) IndexOutOfBounds
   \<and> \<not> fails_with (add 2 0 3 (Some 2) demo) IndexOutOfBounds
   \<and> \<not> fails_with (add 2 0 3 None demo) IndexOutOfBounds
   \<and> fails_with (move 0 3 0 demo) ChildNotFound
   \<and> fails_with (move 0 1 2 demo) IndexOutOfBounds
   \<and> \<not> fails_with (move 0 1 1 demo) IndexOutOfBounds"
proof -
  have k: "children (elems demo 0) = Some [1, 2]" by (simp add: demo_defs)
  show ?thesis
    using position_errors [OF k, of 2 3 3 0] position_errors [OF k, of 2 3 "- 1" 0]
      position_errors [OF k, of 2 3 2 0] position_errors [OF k, of 2 1 0 2]
      position_errors [OF k, of 2 1 0 1] k
    by simp
qed

text \<open>
The theorem at the root of the concrete model: child 1 moves behind child 2.
\<close>

theorem move_reorders_only_witness:
  "children (elems demo 0) = Some [1, 2]
   \<and> (\<exists>cs'. move 0 1 1 demo = Returns () (set_children 0 cs' demo) \<and> mset cs' = mset [1, 2]
         \<and> id2element (set_children 0 cs' demo) = id2element demo)
   \<and> move 0 1 1 demo = Returns () (set_children 0 [2, 1] demo)"
proof -
  have k: "children (elems demo 0) = Some [1, 2]" "(1::nat) \<in> set [1, 2]" "(0::int) \<le> 1"
    "(1::int) \<le> int (length [1::nat, 2]) - 1" by (simp_all add: demo_defs)
  from move_reorders_only [OF k]
  have "\<exists>cs'. move 0 1 1 demo = Returns () (set_children 0 cs' demo) \<and> mset cs' = mset [1, 2]
         \<and> id2element (set_children 0 cs' demo) = id2element demo" by blast
  moreover have "move 0 1 1 demo = Returns () (set_children 0 [2, 1] demo)"
    by (simp add: demo_defs move_def splice_in_def splice_out_def)
  ultimately show ?thesis using k(1) by blast
qed


lemma demo_first: "index_add 2 0 8 demo = Returns () demo1"
  by (simp add: demo_defs demo1_def eval_nat_numeral createRandomId_def random_index_def
      charAt_def ID_CHARS_def set_id_def contains_def register_def)


text \<open>
  The theorem at the concrete model: the fresh subtree 6 - 7, the subtree 4 - 5 whose
  leaf collides, element 3, which collides itself, and element 8, whose id is generated.
\<close>

theorem index_add_subtree_witness:
  "index_add 2 0 6 demo = Returns () (fold (register 0) [6, 7] demo)
   \<and> card (dom (id2element (fold (register 0) [6, 7] demo) 0) - dom (id2element demo 0)) = 2
   \<and> index_add 2 0 4 demo = Throws DuplicateIdentifier (register 0 4 demo)
   \<and> id2element demo 0 \<subseteq>\<^sub>m id2element (register 0 4 demo) 0
   \<and> id2element (register 0 4 demo) 0 (id_e (elems demo 4)) = Some 4
   \<and> index_add 2 0 3 demo = Throws DuplicateIdentifier demo
   \<and> index_add 2 0 8 demo = Returns () demo1
   \<and> card (dom (id2element demo1 0) - dom (id2element demo 0)) = 1"
proof -
  have a: "shaped (elems demo) (Node 6 [Node 7 []])"
    and ai: "(\<forall>r \<in> set (nodes (Node 6 [Node 7 []])). id_e (elems demo r) \<noteq> [])
       \<and> length (nodes (Node 6 [Node 7 []])) \<le> 2"
    and af: "distinct (ids_of demo (nodes (Node 6 [Node 7 []])))
       \<and> set (ids_of demo (nodes (Node 6 [Node 7 []]))) \<inter> dom (id2element demo 0) = {}"
    by (simp_all add: demo_defs ids_of_def)
  have b: "shaped (elems demo) (Node 4 [Node 5 []])"
    and bi: "(\<forall>r \<in> set (nodes (Node 4 [Node 5 []])). id_e (elems demo r) \<noteq> [])
       \<and> length (nodes (Node 4 [Node 5 []])) \<le> 2"
    and bf: "\<not> (distinct (ids_of demo (nodes (Node 4 [Node 5 []])))
       \<and> set (ids_of demo (nodes (Node 4 [Node 5 []]))) \<inter> dom (id2element demo 0) = {})"
    by (simp_all add: demo_defs ids_of_def)
  have c: "shaped (elems demo) (Node 3 [])"
    and ci: "(\<forall>r \<in> set (nodes (Node 3 [])). id_e (elems demo r) \<noteq> [])
       \<and> length (nodes (Node 3 [])) \<le> 2"
    and cf: "contains 0 (node (Node 3 [])) demo"
    by (simp_all add: demo_defs contains_def)
  have d: "shaped (elems demo) (Node 8 [])"
    and dr: "index_add 2 0 (node (Node 8 [])) demo = Returns () demo1"
    using demo_first by (simp_all add: demo_defs del: index_add.simps)
  have n: "nodes (Node 6 [Node 7 []]) = [6, 7]" "node (Node 6 [Node 7 []]) = 6"
    "node (Node 4 [Node 5 []]) = 4" "node (Node 3 []) = 3" "length [6::nat, 7] = 2"
    "nodes (Node 8 []) = [8]" "length [8::nat] = 1"
    by simp_all
  from index_add_subtree [OF a, of 2 0] ai af
  have "index_add 2 0 (node (Node 6 [Node 7 []])) demo
      = Returns () (fold (register 0) (nodes (Node 6 [Node 7 []])) demo)
    \<and> card (dom (id2element (fold (register 0) (nodes (Node 6 [Node 7 []])) demo) 0)
         - dom (id2element demo 0)) = length (nodes (Node 6 [Node 7 []]))"
    by blast
  then have 1: "index_add 2 0 6 demo = Returns () (fold (register 0) [6, 7] demo)
    \<and> card (dom (id2element (fold (register 0) [6, 7] demo) 0) - dom (id2element demo 0)) = 2"
    by (simp only: n)
  from index_add_subtree [OF b, of 2 0] bi bf
  obtain pre d post where h: "nodes (Node 4 [Node 5 []]) = pre @ d # post"
    "id_e (elems demo d) \<in> dom (id2element demo 0) \<union> set (ids_of demo pre)"
    "index_add 2 0 (node (Node 4 [Node 5 []])) demo
       = Throws DuplicateIdentifier (fold (register 0) pre demo)"
    "id2element demo 0 \<subseteq>\<^sub>m id2element (fold (register 0) pre demo) 0"
    "\<forall>e \<in> set pre. id2element (fold (register 0) pre demo) 0 (id_e (elems demo e)) = Some e"
    by blast
  have "[4, 5] = pre @ d # post" using h(1) by simp
  then consider "pre = []" "d = 4" | "pre = [4]" "d = 5"
    by (auto simp: Cons_eq_append_conv)
  then have pre: "pre = [4]"
  proof cases
    case 1
    then show ?thesis using h(2) by (simp add: demo_defs ids_of_def)
  qed simp
  have 2: "index_add 2 0 4 demo = Throws DuplicateIdentifier (register 0 4 demo)
      \<and> id2element demo 0 \<subseteq>\<^sub>m id2element (register 0 4 demo) 0
      \<and> id2element (register 0 4 demo) 0 (id_e (elems demo 4)) = Some 4"
    using h(3,4,5) by (simp add: pre)
  from index_add_subtree [OF c, of 2 0] ci cf
  have "index_add 2 0 (node (Node 3 [])) demo = Throws DuplicateIdentifier demo" by blast
  then have 3: "index_add 2 0 3 demo = Throws DuplicateIdentifier demo" by (simp only: n)
  from index_add_subtree [OF d, of 2 0] dr
  have "card (dom (id2element demo1 0) - dom (id2element demo 0)) = length (nodes (Node 8 []))"
    by blast
  then have 4: "card (dom (id2element demo1 0) - dom (id2element demo 0)) = 1"
    by (simp only: n)
  from 1 2 3 4 demo_first show ?thesis by blast
qed


text \<open>
  The theorem at the concrete model: element 1 is registered, element 3 only shares its
  id, and element 7 is added twice.
\<close>

theorem duplicates_by_id_only_witness:
  "id_e (elems demo 1) \<noteq> [] \<and> id2element demo 0 (id_e (elems demo 1)) = Some 1
   \<and> index_add 1 0 1 demo = Throws DuplicateIdentifier demo
   \<and> id_e (elems demo 3) = id_e (elems demo 1) \<and> id2element demo 0 ''a'' \<noteq> Some 3
   \<and> contains 0 3 demo
   \<and> id_e (elems demo 7) \<noteq> []
   \<and> index_add 1 0 7 demo = Returns () (register 0 7 demo)
   \<and> index_add 1 0 7 (register 0 7 demo) = Throws DuplicateIdentifier (register 0 7 demo)"
proof -
  have h: "id_e (elems demo 1) \<noteq> [] \<and> id2element demo 0 (id_e (elems demo 1)) = Some 1"
    "id2element demo 0 (id_e (elems demo 1)) = Some 1 \<and> id_e (elems demo 3) = id_e (elems demo 1)"
    "id2element demo 0 ''a'' \<noteq> Some 3"
    by (simp_all add: demo_defs)
  have g: "id_e (elems demo 7) \<noteq> [] \<and> index_add 1 0 7 demo = Returns () (register 0 7 demo)"
    by (simp add: demo_defs contains_def register_def)
  from duplicates_by_id_only [of demo 1 0 0 demo 0 "()" 3] h
  have 1: "index_add 1 0 1 demo = Throws DuplicateIdentifier demo \<and> contains 0 3 demo"
    by (simp only: One_nat_def) blast
  from duplicates_by_id_only [of "register 0 7 demo" 7 0 0 demo 1 "()" 7] g
  have 2: "index_add 1 0 7 (register 0 7 demo) = Throws DuplicateIdentifier (register 0 7 demo)"
    by (simp only: One_nat_def) blast
  from 1 2 h g show ?thesis by blast
qed

end
